theory Spec2Isabelle
  imports Complex_Main "HOL-Library.Word"
begin

section \<open>Pixel grids\<close>

text \<open>
  The asset scripts work on RGBA images of the imaging library: a size and a pixel-access
  object indexed by a coordinate pair. A pixel is a tuple of four 8-bit channels, which the
  scripts read as integers from 0 to 255; a colour hint is a tuple of three Python integers,
  of any size. The coordinates are \<open>int\<close>, since the flood fill computes \<open>x - 1\<close> before it
  tests the bounds.
\<close>

type_synonym coord = "int \<times> int"
type_synonym rgb = "int \<times> int \<times> int"
type_synonym rgba = "8 word \<times> 8 word \<times> 8 word \<times> 8 word"

datatype error = IndexError | ValueError | OverflowError

record 'p image =
  width :: int
  height :: int
  pixels :: "coord \<Rightarrow> 'p"

definition in_bounds :: "int \<Rightarrow> int \<Rightarrow> coord \<Rightarrow> bool" where
  "in_bounds w h c \<longleftrightarrow> 0 \<le> fst c \<and> fst c < w \<and> 0 \<le> snd c \<and> snd c < h"

definition grid :: "int \<Rightarrow> int \<Rightarrow> coord set" where
  "grid w h = {0..<w} \<times> {0..<h}"

text \<open>
  \<open>pixels[x, y]\<close>: a read outside the image raises IndexError. (The library also accepts
  the negative indices \<open>-w .. -1\<close>; the scripts reach a negative index only for an image
  of width or height 0, where the read of \<open>(x, 0)\<close> or \<open>(0, y)\<close> before it has already
  raised, so the plain bounds test gives the same result on every input.)
\<close>

definition getpixel :: "int \<Rightarrow> int \<Rightarrow> (coord \<Rightarrow> 'p) \<Rightarrow> coord \<Rightarrow> error + 'p" where
  "getpixel w h px c = (if in_bounds w h c then Inr (px c) else Inl IndexError)"

definition wf_image :: "'p image \<Rightarrow> bool" where
  "wf_image img \<longleftrightarrow> 0 < width img \<and> 0 < height img"

section \<open>Floating point\<close>

text \<open>
  \<open>math.sqrt\<close> works on IEEE binary64 numbers. A float is the real number it stands for;
  \<open>round_double\<close> rounds a real to the nearest number with a 53-bit significand, ties to
  the even significand (the exponent range is not limited here: the values the scripts
  compute are 0 or lie between 1 and the largest finite double).
\<close>

definition round_half_even :: "real \<Rightarrow> int" where
  "round_half_even y =
     (let f = \<lfloor>y\<rfloor>
      in if y - of_int f < 1 / 2 then f
         else if 1 / 2 < y - of_int f then f + 1
         else if even f then f else f + 1)"

definition round_double :: "real \<Rightarrow> real" where
  "round_double x =
     (if x = 0 then 0
      else
        (let e = \<lfloor>log 2 \<bar>x\<bar>\<rfloor>;
             ulp = 2 powr (of_int e - 52)
         in ulp * of_int (round_half_even (x / ulp))))"

text \<open>
  The conversion of a Python integer to a float: OverflowError when the rounded value would
  reach \<open>2 ^ 1024\<close>, that is from \<open>2 ^ 1024 - 2 ^ 970\<close> on.
\<close>

definition py_float :: "int \<Rightarrow> error + real" where
  "py_float n =
     (if 2 ^ 1024 - 2 ^ 970 \<le> \<bar>n\<bar> then Inl OverflowError
      else Inr (round_double (of_int n)))"

text \<open>
  \<open>math.sqrt\<close> of an integer: the conversion, then the correctly rounded square root
  (ValueError for a negative argument).
\<close>

definition math_sqrt :: "int \<Rightarrow> error + real" where
  "math_sqrt n =
     (case py_float n of
        Inl e \<Rightarrow> Inl e
      | Inr x \<Rightarrow> if x < 0 then Inl ValueError else Inr (round_double (sqrt x)))"

section \<open>clean_assets.py\<close>

text \<open>\<open>c[:3]\<close> of a pixel, as Python integers, and \<open>color[3]\<close>.\<close>

fun rgb_of :: "rgba \<Rightarrow> rgb" where
  "rgb_of (r, g, b, a) = (uint r, uint g, uint b)"

fun alpha :: "rgba \<Rightarrow> 8 word" where
  "alpha (r, g, b, a) = a"

text \<open>
  \<open>get_distance\<close>: \<open>math.sqrt\<close> of the sum of the squared differences of the first three
  channels. The sum is an exact Python integer; the square root is a float, or an exception.
\<close>

fun get_distance :: "rgb \<Rightarrow> rgb \<Rightarrow> error + real" where
  "get_distance (r1, g1, b1) (r2, g2, b2) =
     math_sqrt ((r1 - r2)\<^sup>2 + (g1 - g2)\<^sup>2 + (b1 - b2)\<^sup>2)"

text \<open>
  The local state of \<open>clean_image\<close>: the pixel-access object (written in place), and the
  sets \<open>visited\<close> and \<open>to_clear\<close>.
\<close>

record fill_state =
  pix :: "coord \<Rightarrow> rgba"
  visited :: "coord set"
  to_clear :: "coord set"

text \<open>The neighbours appended to the queue: left, right, up, down, those inside the image.\<close>

definition neighbours :: "int \<Rightarrow> int \<Rightarrow> coord \<Rightarrow> coord list" where
  "neighbours w h c =
     filter (in_bounds w h)
       (map (\<lambda>(dx, dy). (fst c + dx, snd c + dy)) [(-1, 0), (1, 0), (0, -1), (0, 1)])"

text \<open>
  The \<open>while queue\<close> loop. The head of the queue is popped; a visited coordinate is
  dropped; otherwise it is marked visited, and when the distance of its colour to the start
  colour is at most the tolerance it is added to \<open>to_clear\<close>, overwritten with
  \<open>(0, 0, 0, 0)\<close>, and its neighbours go to the back of the queue. The tolerance is the real
  number the caller's integer or float stands for; Python compares a float with an integer
  exactly. (An infinite tolerance acts as any tolerance above the largest distance of two
  pixels, a NaN as a negative one. The write to \<open>pixels[x, y]\<close> follows a read of the same
  coordinate that succeeded, so it cannot raise.)
\<close>

function flood :: "int \<Rightarrow> int \<Rightarrow> real \<Rightarrow> rgba \<Rightarrow> coord list \<Rightarrow> fill_state \<Rightarrow> error + fill_state" where
  "flood w h tol start_color [] s = Inr s"
| "flood w h tol start_color (c # queue) s =
     (if c \<in> visited s then flood w h tol start_color queue s
      else
        (case getpixel w h (pix s) c of
           Inl e \<Rightarrow> Inl e
         | Inr p \<Rightarrow>
             (case get_distance (rgb_of p) (rgb_of start_color) of
                Inl e \<Rightarrow> Inl e
              | Inr d \<Rightarrow>
                  if d \<le> tol
                  then flood w h tol start_color (queue @ neighbours w h c)
                         \<lparr>pix = (pix s)(c := (0, 0, 0, 0)),
                          visited = insert c (visited s),
                          to_clear = insert c (to_clear s)\<rparr>
                  else flood w h tol start_color queue (s\<lparr>visited := insert c (visited s)\<rparr>))))"
  by pat_completeness auto

lemma finite_grid: "finite (grid w h)"
  by (simp add: grid_def)

lemma in_bounds_grid: "in_bounds w h c \<longleftrightarrow> c \<in> grid w h"
  by (cases c) (auto simp: in_bounds_def grid_def)

lemma neighbours_grid: "set (neighbours w h c) \<subseteq> grid w h"
  by (auto simp: neighbours_def in_bounds_grid)

text \<open>
  The loop ends: every pass either shortens the queue or marks a new coordinate of the
  image (or of the queue) visited.
\<close>

termination flood
proof (relation "measures [\<lambda>(w, h, tol, sc, q, s). card ((grid w h \<union> set q) - visited s),
                           \<lambda>(w, h, tol, sc, q, s). length q]", goal_cases)
  case 1
  show ?case by simp
next
  case (2 w h tol sc c queue s)
  have "(grid w h \<union> set queue) - visited s \<subseteq> (grid w h \<union> set (c # queue)) - visited s"
    by auto
  then have "card ((grid w h \<union> set queue) - visited s)
      \<le> card ((grid w h \<union> set (c # queue)) - visited s)"
    by (intro card_mono) (simp_all add: finite_grid)
  then show ?case by auto
next
  case (3 w h tol sc c queue s p d)
  let ?A = "(grid w h \<union> set (queue @ neighbours w h c)) - insert c (visited s)"
  let ?B = "(grid w h \<union> set (c # queue)) - visited s"
  have "?A \<subseteq> ?B" using neighbours_grid[of w h c] by auto
  moreover have "c \<in> ?B" "c \<notin> ?A" using 3 by auto
  ultimately have "?A \<subset> ?B" by blast
  then have "card ?A < card ?B"
    by (intro psubset_card_mono) (simp_all add: finite_grid)
  then show ?case by simp
next
  case (4 w h tol sc c queue s p d)
  let ?A = "(grid w h \<union> set queue) - insert c (visited s)"
  let ?B = "(grid w h \<union> set (c # queue)) - visited s"
  have "?A \<subseteq> ?B" by auto
  moreover have "c \<in> ?B" "c \<notin> ?A" using 4 by auto
  ultimately have "?A \<subset> ?B" by blast
  then have "card ?A < card ?B"
    by (intro psubset_card_mono) (simp_all add: finite_grid)
  then show ?case by simp
qed

text \<open>
  \<open>border_pixels\<close>: top and bottom row for every column, then left and right column for
  every row; the corners come twice.
\<close>

definition border_pixels :: "int \<Rightarrow> int \<Rightarrow> coord list" where
  "border_pixels w h =
     concat (map (\<lambda>x. [(x, 0), (x, h - 1)]) [0..w - 1]) @
     concat (map (\<lambda>y. [(0, y), (w - 1, y)]) [0..h - 1])"

text \<open>
  The loop over \<open>bg_hints\<close>: it computes the distance to each hint in turn (which may
  raise), sets \<open>is_bg\<close> and breaks at the first hint closer than the tolerance.
\<close>

fun hint_match :: "rgba \<Rightarrow> rgb list \<Rightarrow> real \<Rightarrow> error + bool" where
  "hint_match color [] tol = Inr False"
| "hint_match color (hint # hints) tol =
     (case get_distance (rgb_of color) hint of
        Inl e \<Rightarrow> Inl e
      | Inr d \<Rightarrow> if d < tol then Inr True else hint_match color hints tol)"

text \<open>
  One pass of the loop over the border: skip a visited coordinate, skip a transparent
  pixel, compute \<open>is_bg\<close> from the hints, overwrite it with \<open>True\<close>, and flood from the
  pixel with its own colour as the start colour.
\<close>

definition seed_step ::
    "int \<Rightarrow> int \<Rightarrow> rgb list \<Rightarrow> real \<Rightarrow> coord \<Rightarrow> fill_state \<Rightarrow> error + fill_state" where
  "seed_step w h bg_hints tol b s =
     (if b \<in> visited s then Inr s
      else
        (case getpixel w h (pix s) b of
           Inl e \<Rightarrow> Inl e
         | Inr color \<Rightarrow>
             if alpha color = 0 then Inr s
             else
               (case hint_match color bg_hints tol of
                  Inl e \<Rightarrow> Inl e
                | Inr is_bg \<Rightarrow>
                    (let is_bg = True
                     in if is_bg then flood w h tol color [b] s else Inr s))))"

fun scan_border ::
    "int \<Rightarrow> int \<Rightarrow> rgb list \<Rightarrow> real \<Rightarrow> coord list \<Rightarrow> fill_state \<Rightarrow> error + fill_state" where
  "scan_border w h bg_hints tol [] s = Inr s"
| "scan_border w h bg_hints tol (b # bs) s =
     (case seed_step w h bg_hints tol b s of
        Inl e \<Rightarrow> Inl e
      | Inr s' \<Rightarrow> scan_border w h bg_hints tol bs s')"

text \<open>
  \<open>clean_image\<close> between loading and saving: the final state of the scan, and from it the
  image that is saved and the count that is printed (\<open>len(to_clear)\<close>). An exception
  (\<open>Inl\<close>) is what the \<open>except\<close> clause reports; nothing is saved then.
\<close>

definition clean_state :: "rgba image \<Rightarrow> rgb list \<Rightarrow> real \<Rightarrow> error + fill_state" where
  "clean_state img bg_hints tol =
     scan_border (width img) (height img) bg_hints tol
       (border_pixels (width img) (height img))
       \<lparr>pix = pixels img, visited = {}, to_clear = {}\<rparr>"

definition clean_image :: "rgba image \<Rightarrow> rgb list \<Rightarrow> real \<Rightarrow> error + (rgba image \<times> nat)" where
  "clean_image img bg_hints tol =
     (case clean_state img bg_hints tol of
        Inl e \<Rightarrow> Inl e
      | Inr s \<Rightarrow> Inr (img\<lparr>pixels := pix s\<rparr>, card (to_clear s)))"

section \<open>force_crop.py\<close>

text \<open>
  \<open>ImageDraw.ellipse\<close> belongs to the imaging library. It is a parameter of the model: for
  a bounding box it either raises or says which pixels the filled ellipse covers. The fill is
  not anti-aliased: a mask pixel is the fill value or untouched.
\<close>

type_synonym bbox = "real \<times> real \<times> real \<times> real"
type_synonym ellipse_prim = "bbox \<Rightarrow> error + (coord \<Rightarrow> bool)"

definition Image_new :: "int \<Rightarrow> int \<Rightarrow> 'p \<Rightarrow> 'p image" where
  "Image_new w h fill = \<lparr>width = w, height = h, pixels = (\<lambda>_. fill)\<rparr>"

definition draw_ellipse :: "ellipse_prim \<Rightarrow> int image \<Rightarrow> bbox \<Rightarrow> int \<Rightarrow> error + int image" where
  "draw_ellipse prim im box fill =
     (case prim box of
        Inl e \<Rightarrow> Inl e
      | Inr covers \<Rightarrow>
          Inr (im\<lparr>pixels := (\<lambda>p. if in_bounds (width im) (height im) p \<and> covers p
                                   then fill else pixels im p)\<rparr>))"

text \<open>
  \<open>result.paste(img, (0, 0), mask=mask)\<close>: the mask must have the size of the pasted image
  (ValueError otherwise); where the mask is 255 the source pixel, all four channels, replaces
  the destination pixel, elsewhere the destination stays. (The library blends for mask values
  strictly between 0 and 255; the mask built here holds none.)
\<close>

definition paste :: "rgba image \<Rightarrow> rgba image \<Rightarrow> int image \<Rightarrow> error + rgba image" where
  "paste dst src msk =
     (if (width msk, height msk) \<noteq> (width src, height src) then Inl ValueError
      else Inr (dst\<lparr>pixels := (\<lambda>p.
              if in_bounds (width src) (height src) p \<and> in_bounds (width dst) (height dst) p
                 \<and> pixels msk p = 255
              then pixels src p else pixels dst p)\<rparr>))"

text \<open>The radius, the centre and the bounding box handed to the drawing primitive.\<close>

definition crop_radius :: "int \<Rightarrow> int \<Rightarrow> real" where
  "crop_radius w h = real_of_int (min w h) / 2 - 2"

definition crop_center :: "int \<Rightarrow> int \<Rightarrow> real \<times> real" where
  "crop_center w h = (real_of_int w / 2, real_of_int h / 2)"

definition crop_box :: "int \<Rightarrow> int \<Rightarrow> bbox" where
  "crop_box w h =
     (let radius = crop_radius w h;
          (center_x, center_y) = crop_center w h
      in (center_x - radius, center_y - radius, center_x + radius, center_y + radius))"

text \<open>\<open>circular_crop\<close> between loading and saving: the mask, then the composite.\<close>

definition circular_mask :: "ellipse_prim \<Rightarrow> rgba image \<Rightarrow> error + int image" where
  "circular_mask prim img =
     (let w = width img; h = height img;
          msk = Image_new w h 0
      in draw_ellipse prim msk (crop_box w h) 255)"

definition circular_crop :: "ellipse_prim \<Rightarrow> rgba image \<Rightarrow> error + rgba image" where
  "circular_crop prim img =
     (let w = width img; h = height img
      in case circular_mask prim img of
           Inl e \<Rightarrow> Inl e
         | Inr msk \<Rightarrow>
             (let result = Image_new w h (0, 0, 0, 0)
              in paste result img msk))"

text \<open>
  What the library documents of the primitive: the box is given with \<open>x1 \<ge> x0\<close> and
  \<open>y1 \<ge> y0\<close>. A primitive that meets this accepts every ordered box.
\<close>

fun ordered_box :: "bbox \<Rightarrow> bool" where
  "ordered_box (x0, y0, x1, y1) \<longleftrightarrow> x0 \<le> x1 \<and> y0 \<le> y1"

definition accepts_ordered :: "ellipse_prim \<Rightarrow> bool" where
  "accepts_ordered prim \<longleftrightarrow> (\<forall>box. ordered_box box \<longrightarrow> (\<exists>covers. prim box = Inr covers))"

text \<open>
  The argument check of the library's ellipse since its version 9.5: a box with \<open>x1 < x0\<close>
  or \<open>y1 < y0\<close> raises ValueError; any other box is filled by a scan rule.
\<close>

definition checked_ellipse :: "(bbox \<Rightarrow> coord \<Rightarrow> bool) \<Rightarrow> ellipse_prim" where
  "checked_ellipse rule box =
     (case box of (x0, y0, x1, y1) \<Rightarrow>
        if x1 < x0 \<or> y1 < y0 then Inl ValueError else Inr (rule box))"

section \<open>The frame of the fill\<close>

text \<open>
  What every state of one \<open>clean_image\<close> call satisfies, for the pixels \<open>orig\<close> it was
  loaded with: a coordinate in \<open>to_clear\<close> is visited, and the pixel data are the loaded
  ones except at the coordinates in \<open>to_clear\<close>, which hold \<open>(0, 0, 0, 0)\<close>.
\<close>

definition fill_inv :: "(coord \<Rightarrow> rgba) \<Rightarrow> fill_state \<Rightarrow> bool" where
  "fill_inv orig s \<longleftrightarrow>
     to_clear s \<subseteq> visited s \<and>
     pix s = (\<lambda>p. if p \<in> to_clear s then (0, 0, 0, 0) else orig p)"

section \<open>Notions of the specification\<close>

text \<open>
  The tolerance test of the fill: the distance of a pixel's colour to the start colour, as
  \<open>get_distance\<close> computes it, is at most the tolerance.
\<close>

definition within_tol :: "real \<Rightarrow> rgba \<Rightarrow> rgba \<Rightarrow> bool" where
  "within_tol tol p start \<longleftrightarrow>
     (case get_distance (rgb_of p) (rgb_of start) of Inl e \<Rightarrow> False | Inr d \<Rightarrow> d \<le> tol)"

text \<open>
  Hints for which the hint loop raises nothing: the distance of every pixel colour to every
  hint is a float.
\<close>

definition hints_ok :: "rgb list \<Rightarrow> bool" where
  "hints_ok hints \<longleftrightarrow> (\<forall>hint\<in>set hints. \<forall>color. \<exists>d. get_distance (rgb_of color) hint = Inr d)"

text \<open>The pixels whose alpha went from non-zero to zero between two images.\<close>

definition alpha_transitions :: "rgba image \<Rightarrow> rgba image \<Rightarrow> coord set" where
  "alpha_transitions before after =
     {p \<in> grid (width before) (height before).
        alpha (pixels before p) \<noteq> 0 \<and> alpha (pixels after p) = 0}"

text \<open>
  The region of a seed: the coordinates reachable from it by steps to 4-neighbours inside the
  image, through pixels that are each within the tolerance of the seed's loaded colour and
  outside the set \<open>V\<close>. With \<open>V = {}\<close> this is the connected region of the seed.
\<close>

inductive_set region ::
    "int \<Rightarrow> int \<Rightarrow> (coord \<Rightarrow> rgba) \<Rightarrow> real \<Rightarrow> coord set \<Rightarrow> coord \<Rightarrow> coord set"
  for w h orig tol V seed where
  seed: "in_bounds w h seed \<Longrightarrow> seed \<notin> V \<Longrightarrow> within_tol tol (orig seed) (orig seed) \<Longrightarrow>
         seed \<in> region w h orig tol V seed"
| step: "p \<in> region w h orig tol V seed \<Longrightarrow> q \<in> set (neighbours w h p) \<Longrightarrow> q \<notin> V \<Longrightarrow>
         within_tol tol (orig q) (orig seed) \<Longrightarrow>
         q \<in> region w h orig tol V seed"

text \<open>The in-image neighbours of the coordinates of a set.\<close>

definition around :: "int \<Rightarrow> int \<Rightarrow> coord set \<Rightarrow> coord set" where
  "around w h R = (\<Union>p\<in>R. set (neighbours w h p))"

text \<open>
  The border scan in terms of regions: a pair of the visited and the cleared coordinates.
  A border coordinate that is visited or transparent is passed over; any other is a seed,
  whose region outside the coordinates visited so far is cleared, and the seed, the region
  and the neighbours of the region become visited.
\<close>

fun seed_regions ::
    "int \<Rightarrow> int \<Rightarrow> (coord \<Rightarrow> rgba) \<Rightarrow> real \<Rightarrow> coord list \<Rightarrow> coord set \<times> coord set
       \<Rightarrow> coord set \<times> coord set" where
  "seed_regions w h orig tol [] (V, C) = (V, C)"
| "seed_regions w h orig tol (b # bs) (V, C) =
     (if b \<in> V \<or> alpha (orig b) = 0 then seed_regions w h orig tol bs (V, C)
      else
        (let R = region w h orig tol V b
         in seed_regions w h orig tol bs (V \<union> insert b (around w h R), C \<union> R)))"

text \<open>
  The invariant of the \<open>while queue\<close> loop of one seed \<open>b\<close>, started with the visited set
  \<open>V0\<close> and the cleared set \<open>C0\<close>: what is visited or queued is the seed or a neighbour of
  its region, what is newly cleared lies in its region, the neighbours of a cleared region
  pixel are visited or queued, and a region pixel visited by this loop is cleared.
\<close>

definition flood_inv ::
    "int \<Rightarrow> int \<Rightarrow> (coord \<Rightarrow> rgba) \<Rightarrow> real \<Rightarrow> coord set \<Rightarrow> coord set \<Rightarrow> coord
       \<Rightarrow> coord list \<Rightarrow> fill_state \<Rightarrow> bool" where
  "flood_inv w h orig tol V0 C0 b q s \<longleftrightarrow>
     fill_inv orig s \<and>
     V0 \<subseteq> visited s \<and>
     visited s \<subseteq> V0 \<union> insert b (around w h (region w h orig tol V0 b)) \<and>
     C0 \<subseteq> to_clear s \<and>
     to_clear s \<subseteq> C0 \<union> region w h orig tol V0 b \<and>
     set q \<subseteq> insert b (around w h (region w h orig tol V0 b)) \<and>
     around w h (region w h orig tol V0 b \<inter> to_clear s) \<subseteq> visited s \<union> set q \<and>
     region w h orig tol V0 b \<inter> (visited s - V0) \<subseteq> to_clear s \<and>
     b \<in> visited s \<union> set q"

section \<open>Small images\<close>

definition white_1x1 :: "rgba image" where
  "white_1x1 = \<lparr>width = 1, height = 1, pixels = (\<lambda>p. (255, 255, 255, 255))\<rparr>"

definition white_4x4 :: "rgba image" where
  "white_4x4 = \<lparr>width = 4, height = 4, pixels = (\<lambda>p. (255, 255, 255, 255))\<rparr>"

definition black_2x1_half :: "rgba image" where
  "black_2x1_half = \<lparr>width = 2, height = 1,
      pixels = (\<lambda>p. if p = (0, 0) then (0, 0, 0, 255) else (0, 0, 0, 0))\<rparr>"

definition step_2x1 :: "rgba image" where
  "step_2x1 = \<lparr>width = 2, height = 1,
      pixels = (\<lambda>p. if p = (0, 0) then (0, 0, 0, 255) else (100, 0, 0, 255))\<rparr>"

definition ramp_3x1 :: "rgba image" where
  "ramp_3x1 = \<lparr>width = 3, height = 1,
      pixels = (\<lambda>p. if p = (0, 0) then (0, 0, 0, 255)
                     else if p = (1, 0) then (100, 0, 0, 255) else (110, 0, 0, 255))\<rparr>"

section \<open>Floats of small integers\<close>

lemma round_half_even_int: "round_half_even (of_int m) = m"
  by (simp add: round_half_even_def)

lemma round_half_even_nonneg: "0 \<le> y \<Longrightarrow> 0 \<le> round_half_even y"
  by (simp add: round_half_even_def Let_def)

lemma round_double_0: "round_double 0 = 0"
  by (simp add: round_double_def)

lemma round_double_nonneg: "0 \<le> x \<Longrightarrow> 0 \<le> round_double x"
  by (simp add: round_double_def Let_def round_half_even_nonneg)

text \<open>An integer below \<open>2 ^ 53\<close> is a double.\<close>

lemma round_double_int:
  assumes "0 < k" "k < 2 ^ 53"
  shows "round_double (of_int k) = of_int k"
proof -
  define e where "e = \<lfloor>log 2 (of_int k)\<rfloor>"
  have k1: "(1::real) \<le> of_int k" using assms(1) by simp
  then have "0 \<le> log 2 (of_int k)" by simp
  then have e0: "0 \<le> e" unfolding e_def by simp
  have "real_of_int k < 2 ^ 53" using assms(2) by (metis of_int_less_numeral_power_cancel_iff)
  then have "log 2 (of_int k) < 53"
    using k1 by (subst log_less_iff) (simp_all add: powr_realpow)
  then have e52: "e \<le> 52" unfolding e_def by linarith
  define n where "n = nat (52 - e)"
  have n: "real_of_int e - 52 = - real n" using e52 by (simp add: n_def)
  have ulp: "(2::real) powr (of_int e - 52) = 1 / 2 ^ n"
    unfolding n by (simp add: powr_minus powr_realpow divide_simps)
  have q: "real_of_int k / (1 / 2 ^ n) = real_of_int (k * 2 ^ n)" by simp
  have "round_double (of_int k) =
      (1 / 2 ^ n) * of_int (round_half_even (real_of_int k / (1 / 2 ^ n)))"
    using assms(1) by (simp add: round_double_def Let_def e_def[symmetric] ulp)
  also have "\<dots> = (1 / 2 ^ n) * real_of_int (k * 2 ^ n)"
    unfolding q round_half_even_int ..
  also have "\<dots> = of_int k" by simp
  finally show ?thesis .
qed

text \<open>The square root of a perfect square below \<open>2 ^ 53\<close> is exact.\<close>

lemma math_sqrt_square:
  assumes "0 \<le> k" "k * k < 2 ^ 53"
  shows "math_sqrt (k * k) = Inr (of_int k)"
proof (cases "k = 0")
  case True
  then show ?thesis by (simp add: math_sqrt_def py_float_def round_double_0)
next
  case False
  with assms(1) have k: "0 < k" by simp
  then have kk: "0 < k * k" by simp
  have "k \<le> k * k" using k by (simp add: mult_le_cancel_left1)
  with assms(2) have k53: "k < 2 ^ 53" by linarith
  have small: "\<not> 2 ^ 1024 - 2 ^ 970 \<le> \<bar>k * k\<bar>" using assms(2) kk by simp
  have "sqrt (of_int (k * k)) = of_int k" using k by simp
  then show ?thesis
    using small round_double_int[OF kk assms(2)] round_double_int[OF k k53] k
    by (simp add: math_sqrt_def py_float_def)
qed

lemma math_sqrt_total: "0 \<le> n \<Longrightarrow> n < 2 ^ 1024 - 2 ^ 970 \<Longrightarrow> \<exists>d. math_sqrt n = Inr d"
  using round_double_nonneg[of "of_int n"] by (simp add: math_sqrt_def py_float_def)

lemma math_sqrt_error: "0 \<le> n \<Longrightarrow> math_sqrt n = Inl e \<Longrightarrow> e = OverflowError"
  using round_double_nonneg[of "of_int n"]
  by (auto simp: math_sqrt_def py_float_def split: if_splits)

lemma math_sqrt_overflow: "2 ^ 1024 - 2 ^ 970 \<le> n \<Longrightarrow> math_sqrt n = Inl OverflowError"
  by (simp add: math_sqrt_def py_float_def)

lemmas math_sqrt_evals =
  math_sqrt_square[of 0, simplified] math_sqrt_square[of 10, simplified]
  math_sqrt_square[of 100, simplified] math_sqrt_square[of 110, simplified]
  math_sqrt_square[of 200, simplified]

section \<open>Distances of colours\<close>

lemma channel_diff_sq: "(uint (a :: 8 word) - uint (b :: 8 word))\<^sup>2 \<le> 65025"
proof -
  have "0 \<le> uint a" "uint a < 256" "0 \<le> uint b" "uint b < 256"
    using uint_lt2p[of a] uint_lt2p[of b] by simp_all
  then have "\<bar>uint a - uint b\<bar> \<le> 255" by linarith
  then have "\<bar>uint a - uint b\<bar>\<^sup>2 \<le> 255\<^sup>2" by (intro power_mono) simp_all
  then show ?thesis by simp
qed

lemma get_distance_error: "get_distance c1 c2 = Inl e \<Longrightarrow> e = OverflowError"
  by (cases c1; cases c2) (auto dest!: math_sqrt_error[rotated])

lemma pixel_distance: "\<exists>d. get_distance (rgb_of p) (rgb_of q) = Inr d"
proof -
  obtain r1 g1 b1 a1 where p: "p = (r1, g1, b1, a1)" by (cases p) auto
  obtain r2 g2 b2 a2 where q: "q = (r2, g2, b2, a2)" by (cases q) auto
  let ?n = "(uint r1 - uint r2)\<^sup>2 + (uint g1 - uint g2)\<^sup>2 + (uint b1 - uint b2)\<^sup>2"
  have "?n \<le> 195075"
    using channel_diff_sq[of r1 r2] channel_diff_sq[of g1 g2] channel_diff_sq[of b1 b2]
    by linarith
  then have "?n < 2 ^ 1024 - 2 ^ 970" by simp
  moreover have "0 \<le> ?n" by simp
  ultimately show ?thesis unfolding p q by (simp add: math_sqrt_total)
qed

lemma get_distance_self: "get_distance c c = Inr 0"
  by (cases c) (simp add: math_sqrt_evals)

lemma within_tol_self: "within_tol tol p p \<longleftrightarrow> 0 \<le> tol"
  by (simp add: within_tol_def get_distance_self)

lemma within_tol_iff:
  "get_distance (rgb_of p) (rgb_of start) = Inr d \<Longrightarrow> within_tol tol p start \<longleftrightarrow> d \<le> tol"
  by (simp add: within_tol_def)

text \<open>
  A tolerance on the boundary: the float nearest to the square root of 3 lies below the
  square root, and a pixel at that distance passes the test at that tolerance.
\<close>

lemma round_half_even_between:
  "of_int m - 1 / 2 < y \<Longrightarrow> y < of_int m + 1 / 2 \<Longrightarrow> round_half_even y = m"
proof -
  assume a: "of_int m - 1 / 2 < y" "y < of_int m + 1 / 2"
  show ?thesis
  proof (cases "of_int m \<le> y")
    case True
    then have "\<lfloor>y\<rfloor> = m" using a by linarith
    then show ?thesis using a by (simp add: round_half_even_def Let_def)
  next
    case False
    then have f: "\<lfloor>y\<rfloor> = m - 1" using a by linarith
    then have "\<not> y - of_int \<lfloor>y\<rfloor> < 1 / 2" "1 / 2 < y - of_int \<lfloor>y\<rfloor>" using a by simp_all
    then show ?thesis using f by (simp add: round_half_even_def Let_def)
  qed
qed

lemma math_sqrt_3: "math_sqrt 3 = Inr (7800463371553962 / 2 ^ 52)"
proof -
  have s1: "1 \<le> sqrt 3" by simp
  have s2: "sqrt 3 < 2" by (simp add: real_sqrt_less_iff[of 3 4, simplified] real_less_lsqrt)
  have e: "\<lfloor>log 2 \<bar>sqrt 3\<bar>\<rfloor> = 0"
  proof -
    have "0 \<le> log 2 (sqrt 3)" using s1 by simp
    moreover have "log 2 (sqrt 3) < 1" using s1 s2 by (subst log_less_iff) simp_all
    ultimately show ?thesis by (simp add: floor_eq_iff)
  qed
  have lo: "(7800463371553962 - 1 / 2) < sqrt 3 * 2 ^ 52"
  proof -
    have "((7800463371553962 - 1 / 2) / 2 ^ 52 :: real)\<^sup>2 < 3" by (simp add: power2_eq_square)
    then have "(7800463371553962 - 1 / 2) / 2 ^ 52 < sqrt 3" by (rule real_less_rsqrt)
    then show ?thesis by (simp add: divide_simps)
  qed
  have hi: "sqrt 3 * 2 ^ 52 < (7800463371553962 + 1 / 2)"
  proof -
    have "3 < ((7800463371553962 + 1 / 2) / 2 ^ 52 :: real)\<^sup>2" by (simp add: power2_eq_square)
    then have "sqrt 3 < (7800463371553962 + 1 / 2) / 2 ^ 52" by (intro real_less_lsqrt) simp_all
    then show ?thesis by (simp add: divide_simps)
  qed
  have r: "round_half_even (sqrt 3 * 2 ^ 52) = 7800463371553962"
    using lo hi by (intro round_half_even_between) simp_all
  have "round_double (sqrt 3) = 7800463371553962 / 2 ^ 52"
    using e r by (simp add: round_double_def Let_def powr_minus powr_realpow divide_simps)
  moreover have "round_double 3 = 3" using round_double_int[of 3] by simp
  ultimately show ?thesis by (simp add: math_sqrt_def py_float_def)
qed

lemma within_tol_sqrt_3:
  "within_tol (7800463371553962 / 2 ^ 52) (1, 1, 1, 255) (0, 0, 0, 255) \<and>
   \<not> sqrt 3 \<le> 7800463371553962 / 2 ^ 52"
proof -
  have "((7800463371553962 / 2 ^ 52 :: real))\<^sup>2 < 3" by (simp add: power2_eq_square)
  then have "7800463371553962 / 2 ^ 52 < sqrt 3" by (rule real_less_rsqrt)
  then show ?thesis by (simp add: within_tol_def math_sqrt_3)
qed

text \<open>Hints that are colours raise nothing.\<close>

lemma hints_ok_colours:
  assumes "\<forall>hint\<in>set hints.
      \<exists>(r :: 8 word) (g :: 8 word) (b :: 8 word). hint = (uint r, uint g, uint b)"
  shows "hints_ok hints"
  unfolding hints_ok_def
proof (intro ballI allI)
  fix hint color assume "hint \<in> set hints"
  with assms obtain r :: "8 word" and g :: "8 word" and b :: "8 word"
    where "hint = (uint r, uint g, uint b)" by blast
  then have "hint = rgb_of (r, g, b, 0)" by simp
  then show "\<exists>d. get_distance (rgb_of color) hint = Inr d" using pixel_distance by metis
qed

lemma hints_ok_Nil: "hints_ok []"
  by (simp add: hints_ok_def)

lemma hint_match_ok: "hints_ok hints \<Longrightarrow> \<exists>m. hint_match color hints tol = Inr m"
proof (induction hints)
  case Nil
  show ?case by auto
next
  case (Cons hint hints)
  from Cons.prems have "\<forall>c. \<exists>d. get_distance (rgb_of c) hint = Inr d"
    unfolding hints_ok_def by (simp del: split_paired_All)
  then obtain d where "get_distance (rgb_of color) hint = Inr d" by blast
  moreover from Cons.prems have "hints_ok hints" unfolding hints_ok_def by simp
  ultimately show ?case using Cons.IH by auto
qed

lemma hint_match_error: "hint_match color hints tol = Inl e \<Longrightarrow> e = OverflowError"
  by (induction hints) (auto split: sum.splits if_splits dest: get_distance_error)

section \<open>The cases of the fill loop\<close>

lemma getpixel_grid: "c \<in> grid w h \<Longrightarrow> getpixel w h px c = Inr (px c)"
  by (simp add: getpixel_def in_bounds_grid)

lemma flood_skip:
  "c \<in> visited s \<Longrightarrow> flood w h tol sc (c # q) s = flood w h tol sc q s"
  by simp

lemma flood_out:
  "c \<notin> visited s \<Longrightarrow> \<not> in_bounds w h c \<Longrightarrow> flood w h tol sc (c # q) s = Inl IndexError"
  by (simp add: getpixel_def)

lemma flood_clear:
  "c \<notin> visited s \<Longrightarrow> in_bounds w h c \<Longrightarrow> within_tol tol (pix s c) sc \<Longrightarrow>
     flood w h tol sc (c # q) s =
       flood w h tol sc (q @ neighbours w h c)
         \<lparr>pix = (pix s)(c := (0, 0, 0, 0)), visited = insert c (visited s),
          to_clear = insert c (to_clear s)\<rparr>"
  using pixel_distance[of "pix s c" sc]
  by (auto simp: getpixel_def within_tol_def)

lemma flood_reject:
  "c \<notin> visited s \<Longrightarrow> in_bounds w h c \<Longrightarrow> \<not> within_tol tol (pix s c) sc \<Longrightarrow>
     flood w h tol sc (c # q) s = flood w h tol sc q (s\<lparr>visited := insert c (visited s)\<rparr>)"
  using pixel_distance[of "pix s c" sc]
  by (auto simp: getpixel_def within_tol_def)

declare flood.simps(2) [simp del]

lemma flood_loop_induct [case_names Nil Skip Out Clear Reject]:
  assumes nil: "\<And>s. P [] s"
    and skip: "\<And>c q s. c \<in> visited s \<Longrightarrow> P q s \<Longrightarrow> P (c # q) s"
    and out: "\<And>c q s. c \<notin> visited s \<Longrightarrow> \<not> in_bounds w h c \<Longrightarrow> P (c # q) s"
    and clear: "\<And>c q s. c \<notin> visited s \<Longrightarrow> in_bounds w h c \<Longrightarrow> within_tol tol (pix s c) sc \<Longrightarrow>
        P (q @ neighbours w h c)
          \<lparr>pix = (pix s)(c := (0, 0, 0, 0)), visited = insert c (visited s),
           to_clear = insert c (to_clear s)\<rparr> \<Longrightarrow> P (c # q) s"
    and reject: "\<And>c q s. c \<notin> visited s \<Longrightarrow> in_bounds w h c \<Longrightarrow>
        \<not> within_tol tol (pix s c) sc \<Longrightarrow>
        P q (s\<lparr>visited := insert c (visited s)\<rparr>) \<Longrightarrow> P (c # q) s"
  shows "P q s"
proof -
  have "w' = w \<Longrightarrow> h' = h \<Longrightarrow> tol' = tol \<Longrightarrow> sc' = sc \<Longrightarrow> P q s" for w' h' tol' sc'
  proof (induction w' h' tol' sc' q s rule: flood.induct)
    case (1 w' h' tol' sc' s)
    show ?case by (rule nil)
  next
    case (2 w' h' tol' sc' c queue s)
    note eqs = "2.prems"
    show ?case
    proof (cases "c \<in> visited s")
      case True
      from "2.IH"(1)[OF True eqs] show ?thesis by (rule skip[OF True])
    next
      case False
      show ?thesis
      proof (cases "in_bounds w h c")
        case ib: True
        then have gp: "getpixel w' h' (pix s) c = Inr (pix s c)"
          using eqs by (simp add: getpixel_def)
        from pixel_distance obtain d where
          gd: "get_distance (rgb_of (pix s c)) (rgb_of sc') = Inr d" by blast
        show ?thesis
        proof (cases "d \<le> tol'")
          case True
          then have "within_tol tol (pix s c) sc" using gd eqs by (simp add: within_tol_def)
          moreover from "2.IH"(2)[OF False gp gd True eqs]
          have "P (queue @ neighbours w h c)
              \<lparr>pix = (pix s)(c := (0, 0, 0, 0)), visited = insert c (visited s),
               to_clear = insert c (to_clear s)\<rparr>" using eqs by simp
          ultimately show ?thesis by (rule clear[OF False ib])
        next
          case far: False
          then have "\<not> within_tol tol (pix s c) sc" using gd eqs by (simp add: within_tol_def)
          moreover from "2.IH"(3)[OF False gp gd far eqs]
          have "P queue (s\<lparr>visited := insert c (visited s)\<rparr>)" .
          ultimately show ?thesis by (rule reject[OF False ib])
        qed
      next
        case False
        with \<open>c \<notin> visited s\<close> show ?thesis by (rule out)
      qed
    qed
  qed
  then show ?thesis by simp
qed

section \<open>Basic facts\<close>

lemma flood_total: "set q \<subseteq> grid w h \<Longrightarrow> \<exists>s'. flood w h tol sc q s = Inr s'"
proof (induction q s rule: flood_loop_induct[where w = w and h = h and tol = tol and sc = sc])
  case (Nil s)
  show ?case by simp
next
  case (Skip c q s)
  then show ?case by (simp add: flood_skip)
next
  case (Out c q s)
  then show ?case by (simp add: in_bounds_grid)
next
  case (Clear c q s)
  from Clear.prems neighbours_grid[of w h c] have "set (q @ neighbours w h c) \<subseteq> grid w h"
    by auto
  from Clear.IH[OF this] Clear.hyps show ?case by (simp add: flood_clear)
next
  case (Reject c q s)
  then show ?case by (simp add: flood_reject)
qed

lemma flood_inv: "fill_inv orig s \<Longrightarrow> flood w h tol sc q s = Inr s' \<Longrightarrow> fill_inv orig s'"
proof (induction q s rule: flood_loop_induct[where w = w and h = h and tol = tol and sc = sc])
  case (Nil s)
  then show ?case by simp
next
  case (Skip c q s)
  then show ?case by (simp add: flood_skip)
next
  case (Out c q s)
  then show ?case by (simp add: flood_out)
next
  case (Clear c q s)
  have "fill_inv orig \<lparr>pix = (pix s)(c := (0, 0, 0, 0)), visited = insert c (visited s),
      to_clear = insert c (to_clear s)\<rparr>"
    using Clear.prems(1) by (auto simp: fill_inv_def fun_eq_iff)
  with Clear show ?case by (simp add: flood_clear)
next
  case (Reject c q s)
  have "fill_inv orig (s\<lparr>visited := insert c (visited s)\<rparr>)"
    using Reject.prems(1) by (auto simp: fill_inv_def)
  with Reject show ?case by (simp add: flood_reject)
qed

lemma flood_to_clear:
  "flood w h tol sc q s = Inr s' \<Longrightarrow>
     to_clear s \<subseteq> to_clear s' \<and> to_clear s' \<subseteq> to_clear s \<union> grid w h"
proof (induction q s rule: flood_loop_induct[where w = w and h = h and tol = tol and sc = sc])
  case (Nil s)
  then show ?case by simp
next
  case (Skip c q s)
  then show ?case by (simp add: flood_skip)
next
  case (Out c q s)
  then show ?case by (simp add: flood_out)
next
  case (Clear c q s)
  from Clear.prems Clear.hyps have "flood w h tol sc (q @ neighbours w h c)
      \<lparr>pix = (pix s)(c := (0, 0, 0, 0)), visited = insert c (visited s),
       to_clear = insert c (to_clear s)\<rparr> = Inr s'" by (simp add: flood_clear)
  from Clear.IH[OF this] Clear.hyps(2) show ?case by (auto simp: in_bounds_grid)
next
  case (Reject c q s)
  then show ?case by (simp add: flood_reject)
qed


text \<open>One pass of the border loop, case by case.\<close>

lemma seed_step_eq:
  "seed_step w h hints tol b s =
     (if b \<in> visited s then Inr s
      else if \<not> in_bounds w h b then Inl IndexError
      else if alpha (pix s b) = 0 then Inr s
      else (case hint_match (pix s b) hints tol of
              Inl e \<Rightarrow> Inl e
            | Inr m \<Rightarrow> flood w h tol (pix s b) [b] s))"
  by (simp add: seed_step_def getpixel_def split: sum.split)

lemma seed_step_Inr:
  assumes "seed_step w h hints tol b s = Inr s'"
  shows "(s' = s \<and> (b \<in> visited s \<or> in_bounds w h b \<and> alpha (pix s b) = 0)) \<or>
         (b \<notin> visited s \<and> in_bounds w h b \<and> alpha (pix s b) \<noteq> 0 \<and>
          flood w h tol (pix s b) [b] s = Inr s')"
  using assms by (auto simp: seed_step_eq split: if_splits sum.splits)

lemma seed_step_total:
  "b \<in> grid w h \<Longrightarrow> hints_ok hints \<Longrightarrow> \<exists>s'. seed_step w h hints tol b s = Inr s'"
  using flood_total[of "[b]" w h tol "pix s b" s] hint_match_ok[of hints "pix s b" tol]
  by (auto simp: seed_step_eq in_bounds_grid)

lemma seed_step_inv:
  "fill_inv orig s \<Longrightarrow> seed_step w h hints tol b s = Inr s' \<Longrightarrow> fill_inv orig s'"
  by (auto dest!: seed_step_Inr dest: flood_inv)

lemma seed_step_to_clear:
  "seed_step w h hints tol b s = Inr s' \<Longrightarrow>
     to_clear s \<subseteq> to_clear s' \<and> to_clear s' \<subseteq> to_clear s \<union> grid w h"
  by (auto dest!: seed_step_Inr dest: flood_to_clear)


lemma seed_step_error: "seed_step w h hints tol b s = Inl e \<Longrightarrow> b \<in> grid w h \<Longrightarrow> e = OverflowError"
  using flood_total[of "[b]" w h tol "pix s b" s]
  by (auto simp: seed_step_eq in_bounds_grid split: if_splits sum.splits dest: hint_match_error)


lemma scan_border_total:
  "set bs \<subseteq> grid w h \<Longrightarrow> hints_ok hints \<Longrightarrow> \<exists>s'. scan_border w h hints tol bs s = Inr s'"
proof (induction bs arbitrary: s)
  case Nil
  show ?case by simp
next
  case (Cons b bs)
  then obtain s1 where "seed_step w h hints tol b s = Inr s1"
    using seed_step_total[of b w h hints tol s] by auto
  with Cons show ?case by simp
qed

lemma scan_border_error:
  "scan_border w h hints tol bs s = Inl e \<Longrightarrow> set bs \<subseteq> grid w h \<Longrightarrow> e = OverflowError"
  by (induction bs arbitrary: s) (auto split: sum.splits dest: seed_step_error)

lemma scan_border_inv:
  "fill_inv orig s \<Longrightarrow> scan_border w h hints tol bs s = Inr s' \<Longrightarrow> fill_inv orig s'"
proof (induction bs arbitrary: s)
  case Nil
  then show ?case by simp
next
  case (Cons b bs)
  then show ?case
    by (auto split: sum.splits dest: seed_step_inv)
qed

lemma scan_border_to_clear:
  "scan_border w h hints tol bs s = Inr s' \<Longrightarrow>
     to_clear s \<subseteq> to_clear s' \<and> to_clear s' \<subseteq> to_clear s \<union> grid w h"
proof (induction bs arbitrary: s)
  case Nil
  then show ?case by simp
next
  case (Cons b bs)
  then obtain s1 where s1: "seed_step w h hints tol b s = Inr s1"
      and rest: "scan_border w h hints tol bs s1 = Inr s'"
    by (auto split: sum.splits)
  from seed_step_to_clear[OF s1] Cons.IH[OF rest] show ?case by blast
qed


lemma border_pixels_grid: "0 < w \<Longrightarrow> 0 < h \<Longrightarrow> set (border_pixels w h) \<subseteq> grid w h"
  by (auto simp: border_pixels_def grid_def)

lemma fill_inv_init: "fill_inv px \<lparr>pix = px, visited = {}, to_clear = {}\<rparr>"
  by (simp add: fill_inv_def)

lemma clean_state_total:
  "wf_image img \<Longrightarrow> hints_ok hints \<Longrightarrow> \<exists>s. clean_state img hints tol = Inr s"
  unfolding clean_state_def wf_image_def
  by (intro scan_border_total border_pixels_grid) simp_all

lemma clean_state_error:
  "wf_image img \<Longrightarrow> clean_state img hints tol = Inl e \<Longrightarrow> e = OverflowError"
  unfolding clean_state_def wf_image_def
  by (erule scan_border_error[OF _ border_pixels_grid]) simp_all

lemma clean_state_inv: "clean_state img hints tol = Inr s \<Longrightarrow> fill_inv (pixels img) s"
  unfolding clean_state_def by (rule scan_border_inv[OF fill_inv_init])

lemma clean_state_to_clear:
  "clean_state img hints tol = Inr s \<Longrightarrow> to_clear s \<subseteq> grid (width img) (height img)"
  unfolding clean_state_def by (drule scan_border_to_clear) simp

lemma clean_image_eq:
  "clean_state img hints tol = Inr s \<Longrightarrow>
     clean_image img hints tol = Inr (img\<lparr>pixels := pix s\<rparr>, card (to_clear s))"
  by (simp add: clean_image_def)

text \<open>The hint list enters one pass only through an exception of the hint loop.\<close>

lemma seed_step_hints:
  "seed_step w h hints tol b s = seed_step w h [] tol b s \<or>
   seed_step w h hints tol b s = Inl OverflowError"
  by (auto simp: seed_step_eq split: sum.splits dest: hint_match_error)

lemma seed_step_hints_ok:
  "hints_ok hints \<Longrightarrow> seed_step w h hints tol b s = seed_step w h [] tol b s"
  using hint_match_ok[of hints "pix s b" tol] by (auto simp: seed_step_eq)

lemma scan_border_hints:
  "scan_border w h hints tol bs s = scan_border w h [] tol bs s \<or>
   scan_border w h hints tol bs s = Inl OverflowError"
proof (induction bs arbitrary: s)
  case Nil
  show ?case by simp
next
  case (Cons b bs)
  from seed_step_hints[of w h hints tol b s] show ?case
  proof
    assume eq: "seed_step w h hints tol b s = seed_step w h [] tol b s"
    show ?thesis
    proof (cases "seed_step w h [] tol b s")
      case (Inl e)
      with eq show ?thesis by simp
    next
      case (Inr s1)
      with eq Cons.IH[of s1] show ?thesis by auto
    qed
  next
    assume "seed_step w h hints tol b s = Inl OverflowError"
    then show ?thesis by simp
  qed
qed

lemma scan_border_hints_ok:
  "hints_ok hints \<Longrightarrow> scan_border w h hints tol bs s = scan_border w h [] tol bs s"
  by (induction bs arbitrary: s) (simp_all add: seed_step_hints_ok split: sum.split)

text \<open>The scan of small borders, and the evaluation of a run.\<close>

lemma border_1x1: "border_pixels 1 1 = [(0, 0), (0, 0), (0, 0), (0, 0)]"
  by (simp add: border_pixels_def upto.simps)

lemma border_2x1: "border_pixels 2 1 = [(0, 0), (0, 0), (1, 0), (1, 0), (0, 0), (1, 0)]"
  by (simp add: border_pixels_def upto.simps)

lemma border_3x1:
  "border_pixels 3 1 = [(0, 0), (0, 0), (1, 0), (1, 0), (2, 0), (2, 0), (0, 0), (2, 0)]"
  by (simp add: border_pixels_def upto.simps)

lemmas run_simps = clean_image_def clean_state_def seed_step_def getpixel_def in_bounds_def
  neighbours_def flood.simps(2) math_sqrt_evals

section \<open>A second scan\<close>




lemma seed_skips_transparent:
  "in_bounds w h b \<Longrightarrow> fill_inv orig s \<Longrightarrow> alpha (orig b) = 0 \<Longrightarrow>
     seed_step w h hints tol b s = Inr s"
  by (auto simp: seed_step_eq fill_inv_def)

lemma transitions_eq:
  assumes "fill_inv (pixels img) s" "to_clear s \<subseteq> grid (width img) (height img)"
  shows "alpha_transitions img (img\<lparr>pixels := pix s\<rparr>) = {p \<in> to_clear s. alpha (pixels img p) \<noteq> 0}"
  using assms by (auto simp: alpha_transitions_def fill_inv_def)

section \<open>The fill of one seed clears its region\<close>

lemma region_props:
  "p \<in> region w h orig tol V b \<Longrightarrow>
     p \<in> grid w h \<and> p \<notin> V \<and> within_tol tol (orig p) (orig b)"
proof (induction rule: region.induct)
  case seed
  then show ?case by (simp add: in_bounds_grid)
next
  case (step p q)
  from step.hyps(2) neighbours_grid[of w h p] have "q \<in> grid w h" by blast
  with step show ?case by simp
qed

lemma around_grid: "around w h R \<subseteq> grid w h"
  unfolding around_def using neighbours_grid[of w h] by blast

lemma region_mono: "V \<subseteq> V' \<Longrightarrow> region w h orig tol V' b \<subseteq> region w h orig tol V b"
proof
  fix p assume "V \<subseteq> V'" "p \<in> region w h orig tol V' b"
  from this(2,1) show "p \<in> region w h orig tol V b"
    by (induction rule: region.induct) (auto intro: region.intros)
qed

lemma frontier_region:
  assumes "c \<in> insert b (around w h (region w h orig tol V0 b))" "b \<in> grid w h" "c \<notin> V0"
    "within_tol tol (orig c) (orig b)"
  shows "c \<in> region w h orig tol V0 b"
proof (cases "c = b")
  case True
  with assms show ?thesis by (auto intro: region.seed simp: in_bounds_grid)
next
  case False
  with assms(1) obtain p where "p \<in> region w h orig tol V0 b" "c \<in> set (neighbours w h p)"
    by (auto simp: around_def)
  with assms(3,4) show ?thesis by (auto intro: region.step)
qed

lemma flood_invD:
  assumes "flood_inv w h orig tol V0 C0 b q s"
  shows "fill_inv orig s" "V0 \<subseteq> visited s"
    "visited s \<subseteq> V0 \<union> insert b (around w h (region w h orig tol V0 b))"
    "C0 \<subseteq> to_clear s" "to_clear s \<subseteq> C0 \<union> region w h orig tol V0 b"
    "set q \<subseteq> insert b (around w h (region w h orig tol V0 b))"
    "around w h (region w h orig tol V0 b \<inter> to_clear s) \<subseteq> visited s \<union> set q"
    "region w h orig tol V0 b \<inter> (visited s - V0) \<subseteq> to_clear s"
    "b \<in> visited s \<union> set q"
  using assms unfolding flood_inv_def by blast+

lemma flood_invI:
  assumes "fill_inv orig s" "V0 \<subseteq> visited s"
    "visited s \<subseteq> V0 \<union> insert b (around w h (region w h orig tol V0 b))"
    "C0 \<subseteq> to_clear s" "to_clear s \<subseteq> C0 \<union> region w h orig tol V0 b"
    "set q \<subseteq> insert b (around w h (region w h orig tol V0 b))"
    "around w h (region w h orig tol V0 b \<inter> to_clear s) \<subseteq> visited s \<union> set q"
    "region w h orig tol V0 b \<inter> (visited s - V0) \<subseteq> to_clear s"
    "b \<in> visited s \<union> set q"
  shows "flood_inv w h orig tol V0 C0 b q s"
  using assms unfolding flood_inv_def by blast

lemma flood_inv_skip:
  assumes inv: "flood_inv w h orig tol V0 C0 b (c # q) s" and c: "c \<in> visited s"
  shows "flood_inv w h orig tol V0 C0 b q s"
proof (rule flood_invI)
  note d = flood_invD[OF inv]
  show "fill_inv orig s" "V0 \<subseteq> visited s"
    "visited s \<subseteq> V0 \<union> insert b (around w h (region w h orig tol V0 b))"
    "C0 \<subseteq> to_clear s" "to_clear s \<subseteq> C0 \<union> region w h orig tol V0 b"
    "region w h orig tol V0 b \<inter> (visited s - V0) \<subseteq> to_clear s"
    by (rule d)+
  from d(6) show "set q \<subseteq> insert b (around w h (region w h orig tol V0 b))" by auto
  from d(7) c show "around w h (region w h orig tol V0 b \<inter> to_clear s) \<subseteq> visited s \<union> set q"
    by auto
  from d(9) c show "b \<in> visited s \<union> set q" by auto
qed

lemma flood_inv_unvisited:
  assumes "flood_inv w h orig tol V0 C0 b (c # q) s" "c \<notin> visited s" "b \<in> grid w h"
  shows "c \<in> grid w h" "pix s c = orig c" "c \<notin> V0"
    "c \<in> insert b (around w h (region w h orig tol V0 b))"
proof -
  note d = flood_invD[OF assms(1)]
  from d(6) show fr: "c \<in> insert b (around w h (region w h orig tol V0 b))" by auto
  with assms(3) around_grid[of w h] show "c \<in> grid w h" by auto
  from d(1) assms(2) show "pix s c = orig c" unfolding fill_inv_def by auto
  from d(2) assms(2) show "c \<notin> V0" by auto
qed

lemma around_insert: "around w h (insert c R) = set (neighbours w h c) \<union> around w h R"
  by (auto simp: around_def)

lemma flood_inv_clear:
  assumes inv: "flood_inv w h orig tol V0 C0 b (c # q) s" and c: "c \<notin> visited s"
    and b: "b \<in> grid w h"
    and near: "within_tol tol (orig c) (orig b)"
  shows "flood_inv w h orig tol V0 C0 b (q @ neighbours w h c)
           \<lparr>pix = (pix s)(c := (0, 0, 0, 0)), visited = insert c (visited s),
            to_clear = insert c (to_clear s)\<rparr>"
    (is "flood_inv w h orig tol V0 C0 b ?q ?s1")
proof (rule flood_invI)
  let ?R = "region w h orig tol V0 b"
  note d = flood_invD[OF inv]
  note u = flood_inv_unvisited[OF inv c b]
  from frontier_region[OF u(4) b u(3) near] have cR: "c \<in> ?R" .
  then have nb: "set (neighbours w h c) \<subseteq> around w h ?R"
    by (auto simp: around_def)
  have sel: "visited ?s1 = insert c (visited s)" "to_clear ?s1 = insert c (to_clear s)"
    by simp_all
  from d(1) show "fill_inv orig ?s1" by (auto simp: fill_inv_def fun_eq_iff)
  from d(2) show "V0 \<subseteq> visited ?s1" unfolding sel by auto
  from d(3) u(4) show "visited ?s1 \<subseteq> V0 \<union> insert b (around w h ?R)" unfolding sel by auto
  from d(4) show "C0 \<subseteq> to_clear ?s1" unfolding sel by auto
  from d(5) cR show "to_clear ?s1 \<subseteq> C0 \<union> ?R" unfolding sel by auto
  from d(6) nb show "set ?q \<subseteq> insert b (around w h ?R)" by auto
  have "?R \<inter> insert c (to_clear s) = insert c (?R \<inter> to_clear s)" using cR by auto
  then have "around w h (?R \<inter> to_clear ?s1)
      = set (neighbours w h c) \<union> around w h (?R \<inter> to_clear s)"
    unfolding sel by (simp add: around_insert)
  with d(7) show "around w h (?R \<inter> to_clear ?s1) \<subseteq> visited ?s1 \<union> set ?q"
    unfolding sel by auto
  from d(8) show "?R \<inter> (visited ?s1 - V0) \<subseteq> to_clear ?s1" unfolding sel by auto
  from d(9) show "b \<in> visited ?s1 \<union> set ?q" unfolding sel by auto
qed

lemma flood_inv_reject:
  assumes inv: "flood_inv w h orig tol V0 C0 b (c # q) s" and c: "c \<notin> visited s"
    and b: "b \<in> grid w h"
    and far: "\<not> within_tol tol (orig c) (orig b)"
  shows "flood_inv w h orig tol V0 C0 b q (s\<lparr>visited := insert c (visited s)\<rparr>)"
    (is "flood_inv w h orig tol V0 C0 b q ?s1")
proof (rule flood_invI)
  let ?R = "region w h orig tol V0 b"
  note d = flood_invD[OF inv]
  note u = flood_inv_unvisited[OF inv c b]
  from far region_props[of c w h orig tol V0 b] have cR: "c \<notin> ?R" by auto
  have sel: "visited ?s1 = insert c (visited s)" "to_clear ?s1 = to_clear s"
    by simp_all
  from d(1) show "fill_inv orig ?s1" by (auto simp: fill_inv_def)
  from d(2) show "V0 \<subseteq> visited ?s1" unfolding sel by auto
  from d(3) u(4) show "visited ?s1 \<subseteq> V0 \<union> insert b (around w h ?R)" unfolding sel by auto
  from d(4) show "C0 \<subseteq> to_clear ?s1" unfolding sel by auto
  from d(5) show "to_clear ?s1 \<subseteq> C0 \<union> ?R" unfolding sel by auto
  from d(6) show "set q \<subseteq> insert b (around w h ?R)" by auto
  from d(7) show "around w h (?R \<inter> to_clear ?s1) \<subseteq> visited ?s1 \<union> set q"
    unfolding sel by auto
  from d(8) cR show "?R \<inter> (visited ?s1 - V0) \<subseteq> to_clear ?s1" unfolding sel by auto
  from d(9) show "b \<in> visited ?s1 \<union> set q" unfolding sel by auto
qed

lemma flood_inv_run:
  "flood_inv w h orig tol V0 C0 b q s \<Longrightarrow> b \<in> grid w h \<Longrightarrow>
     flood w h tol (orig b) q s = Inr s' \<Longrightarrow> flood_inv w h orig tol V0 C0 b [] s'"
proof (induction q s
    rule: flood_loop_induct[where w = w and h = h and tol = tol and sc = "orig b"])
  case (Nil s)
  then show ?case by simp
next
  case (Skip c q s)
  from Skip.IH[OF flood_inv_skip[OF Skip.prems(1) Skip.hyps] Skip.prems(2)] Skip.prems(3) Skip.hyps
  show ?case by (simp add: flood_skip)
next
  case (Out c q s)
  then show ?case by (simp add: flood_out)
next
  case (Clear c q s)
  note u = flood_inv_unvisited[OF Clear.prems(1) Clear.hyps(1) Clear.prems(2)]
  from Clear.hyps(3) u(2) have near: "within_tol tol (orig c) (orig b)" by simp
  from Clear.prems(3) Clear.hyps have "flood w h tol (orig b) (q @ neighbours w h c)
      \<lparr>pix = (pix s)(c := (0, 0, 0, 0)), visited = insert c (visited s),
       to_clear = insert c (to_clear s)\<rparr> = Inr s'" by (simp add: flood_clear)
  from Clear.IH[OF flood_inv_clear[OF Clear.prems(1) Clear.hyps(1) Clear.prems(2) near]
      Clear.prems(2) this]
  show ?case .
next
  case (Reject c q s)
  note u = flood_inv_unvisited[OF Reject.prems(1) Reject.hyps(1) Reject.prems(2)]
  from Reject.hyps(3) u(2) have far: "\<not> within_tol tol (orig c) (orig b)" by simp
  from Reject.prems(3) Reject.hyps
  have "flood w h tol (orig b) q (s\<lparr>visited := insert c (visited s)\<rparr>) = Inr s'"
    by (simp add: flood_reject)
  from Reject.IH[OF flood_inv_reject[OF Reject.prems(1) Reject.hyps(1) Reject.prems(2) far]
      Reject.prems(2) this]
  show ?case .
qed

lemma flood_inv_start:
  assumes "fill_inv orig s" "b \<notin> visited s"
  shows "flood_inv w h orig tol (visited s) (to_clear s) b [b] s"
proof (rule flood_invI)
  let ?R = "region w h orig tol (visited s) b"
  from assms(1) have tv: "to_clear s \<subseteq> visited s" by (simp add: fill_inv_def)
  have dis: "?R \<inter> visited s = {}" using region_props[of _ w h orig tol "visited s" b] by auto
  with tv have "?R \<inter> to_clear s = {}" by auto
  then show "around w h (?R \<inter> to_clear s) \<subseteq> visited s \<union> set [b]"
    by (simp add: around_def)
  show "fill_inv orig s" by fact
qed auto

lemma flood_inv_done:
  assumes "flood_inv w h orig tol V0 C0 b [] s"
  shows "to_clear s = C0 \<union> region w h orig tol V0 b"
    and "visited s = V0 \<union> insert b (around w h (region w h orig tol V0 b))"
proof -
  let ?R = "region w h orig tol V0 b"
  note d = flood_invD[OF assms]
  from d(9) have bv: "b \<in> visited s" by simp
  from d(7) have cl: "around w h (?R \<inter> to_clear s) \<subseteq> visited s" by simp
  note vis = d(8)
  have R: "p \<in> to_clear s" if "p \<in> ?R" for p
    using that
  proof (induction rule: region.induct)
    case seed
    from seed have "b \<in> ?R" by (rule region.seed)
    with bv vis seed(2) show ?case by auto
  next
    case (step p q)
    from step.IH step.hyps(1) have "p \<in> ?R \<inter> to_clear s" by simp
    with step.hyps(2) have "q \<in> around w h (?R \<inter> to_clear s)"
      unfolding around_def by blast
    with cl have "q \<in> visited s" by auto
    moreover from step.hyps have "q \<in> ?R" by (rule region.step)
    ultimately show ?case using step.hyps(3) vis by auto
  qed
  with d(4,5) show "to_clear s = C0 \<union> ?R" by auto
  from R have "?R \<inter> to_clear s = ?R" by auto
  with cl have "around w h ?R \<subseteq> visited s" by simp
  with bv d(2,3) show "visited s = V0 \<union> insert b (around w h ?R)" by auto
qed

lemma flood_exact:
  assumes "fill_inv orig s" "b \<in> grid w h" "b \<notin> visited s"
    "flood w h tol (orig b) [b] s = Inr s'"
  shows "to_clear s' = to_clear s \<union> region w h orig tol (visited s) b"
    and "visited s' = visited s \<union> insert b (around w h (region w h orig tol (visited s) b))"
  using flood_inv_done[OF flood_inv_run[OF flood_inv_start[OF assms(1,3)] assms(2,4)]]
  by simp_all

lemma scan_border_exact:
  "fill_inv orig s \<Longrightarrow> scan_border w h hints tol bs s = Inr s' \<Longrightarrow>
     (visited s', to_clear s') = seed_regions w h orig tol bs (visited s, to_clear s)"
proof (induction bs arbitrary: s)
  case Nil
  then show ?case by simp
next
  case (Cons b bs)
  from Cons.prems obtain s1 where s1: "seed_step w h hints tol b s = Inr s1"
      and rest: "scan_border w h hints tol bs s1 = Inr s'"
    by (auto split: sum.splits)
  note inv1 = seed_step_inv[OF Cons.prems(1) s1]
  note IH = Cons.IH[OF inv1 rest]
  from seed_step_Inr[OF s1] consider
    (skip) "s1 = s" "b \<in> visited s \<or> in_bounds w h b \<and> alpha (pix s b) = 0" |
    (seed) "b \<notin> visited s" "in_bounds w h b" "alpha (pix s b) \<noteq> 0"
      "flood w h tol (pix s b) [b] s = Inr s1"
    by blast
  then show ?case
  proof cases
    case skip
    have "b \<in> visited s \<or> alpha (orig b) = 0"
    proof (cases "b \<in> visited s")
      case False
      with Cons.prems(1) have "pix s b = orig b" by (auto simp: fill_inv_def)
      with skip(2) False show ?thesis by simp
    qed simp
    with IH skip(1) show ?thesis by simp
  next
    case seed
    note nv = seed(1) and ib = seed(2) and nz = seed(3) and fl = seed(4)
    from nv Cons.prems(1) have px: "pix s b = orig b" by (auto simp: fill_inv_def)
    from ib have b: "b \<in> grid w h" by (simp add: in_bounds_grid)
    from flood_exact[OF Cons.prems(1) b nv fl[unfolded px]] IH nv nz px show ?thesis
      by (simp add: Let_def)
  qed
qed

lemma seed_regions_sound:
  "snd (seed_regions w h orig tol bs (V, C))
     \<subseteq> C \<union> (\<Union>b\<in>{b \<in> set bs. alpha (orig b) \<noteq> 0}. region w h orig tol {} b)"
proof (induction bs arbitrary: V C)
  case Nil
  show ?case by simp
next
  case (Cons b bs)
  show ?case
  proof (cases "b \<in> V \<or> alpha (orig b) = 0")
    case True
    with Cons.IH[of V C] show ?thesis by auto
  next
    case False
    let ?R = "region w h orig tol V b"
    have "?R \<subseteq> region w h orig tol {} b" by (rule region_mono) simp
    with Cons.IH[of "V \<union> insert b (around w h ?R)" "C \<union> ?R"] False show ?thesis
      by (auto simp: Let_def)
  qed
qed

section \<open>The crop in closed form\<close>

text \<open>
  The mask and the output of \<open>circular_crop\<close>: where the primitive accepts the box, the
  output has the source pixel at the covered coordinates inside the image and
  \<open>(0, 0, 0, 0)\<close> elsewhere.
\<close>

lemma circular_mask_eq:
  "circular_mask prim img =
     (case prim (crop_box (width img) (height img)) of
        Inl e \<Rightarrow> Inl e
      | Inr covers \<Rightarrow>
          Inr \<lparr>width = width img, height = height img,
               pixels = (\<lambda>p. if in_bounds (width img) (height img) p \<and> covers p
                              then 255 else 0)\<rparr>)"
  by (simp add: circular_mask_def draw_ellipse_def Image_new_def Let_def fun_eq_iff
      split: sum.split)

lemma circular_crop_eq:
  "circular_crop prim img =
     (case prim (crop_box (width img) (height img)) of
        Inl e \<Rightarrow> Inl e
      | Inr covers \<Rightarrow>
          Inr \<lparr>width = width img, height = height img,
               pixels = (\<lambda>p. if in_bounds (width img) (height img) p \<and> covers p
                              then pixels img p else (0, 0, 0, 0))\<rparr>)"
  by (simp add: circular_crop_def circular_mask_eq Image_new_def paste_def Let_def fun_eq_iff
      split: sum.split)

lemma ordered_crop_box: "ordered_box (crop_box w h) \<longleftrightarrow> 4 \<le> min w h"
  by (auto simp: crop_box_def crop_radius_def crop_center_def Let_def)

lemma accepts_ordered_checked: "accepts_ordered (checked_ellipse rule)"
  by (auto simp: accepts_ordered_def checked_ellipse_def)

lemma crop_box_1x1: "crop_box 1 1 = (2, 2, -1, -1)"
  by (simp add: crop_box_def crop_radius_def crop_center_def)

lemma crop_box_4x4: "crop_box 4 4 = (2, 2, 2, 2)"
  by (simp add: crop_box_def crop_radius_def crop_center_def)

lemma clean_state_cases:
  assumes "wf_image img"
  shows "(\<exists>s. clean_state img hints tol = Inr s) \<or>
         (\<not> hints_ok hints \<and> clean_state img hints tol = Inl OverflowError)"
proof (cases "clean_state img hints tol")
  case (Inl e)
  from clean_state_error[OF assms Inl] have "e = OverflowError" .
  moreover from clean_state_total[OF assms, of hints tol] Inl have "\<not> hints_ok hints" by auto
  ultimately show ?thesis using Inl by simp
next
  case (Inr s)
  then show ?thesis by simp
qed


lemma clean_image_Inl:
  "clean_image img hints tol = Inl e \<longleftrightarrow> clean_state img hints tol = Inl e"
  by (auto simp: clean_image_def split: sum.splits)

lemma hints_ok_black_blue: "hints_ok [(0, 0, 200)]"
proof (rule hints_ok_colours)
  have "(0, 0, 200) = (uint (0 :: 8 word), uint (0 :: 8 word), uint (200 :: 8 word))" by simp
  then show "\<forall>hint\<in>set [(0, 0, 200)].
      \<exists>(r :: 8 word) (g :: 8 word) (b :: 8 word). hint = (uint r, uint g, uint b)"
    by (metis list.set_cases list.inject neq_Nil_conv empty_iff empty_set)
qed

lemma hints_not_ok_huge: "\<not> hints_ok [(10 ^ 155, 0, 0)]"
proof
  assume "hints_ok [(10 ^ 155, 0, 0)]"
  then have "\<exists>d. get_distance (rgb_of (0, 0, 0, 0)) (10 ^ 155, 0, 0) = Inr d"
    unfolding hints_ok_def by (simp del: split_paired_All rgb_of.simps get_distance.simps)
  then show False by (simp add: math_sqrt_overflow)
qed

section \<open>Properties of the specification\<close>

text \<open>
  C10, as amended. The hint list can change the result of \<open>clean_image\<close> in one way only: by
  an OverflowError of the hint loop. Two hint lists for which the loop raises nothing (every
  list of 8-bit colours is one) give the same saved image and the same count; for any hint
  list the result is that of the empty list, or the call fails with OverflowError.
\<close>

theorem clean_image_hints_only_overflow:
  "(hints_ok hints1 \<and> hints_ok hints2 \<longrightarrow>
      clean_image img hints1 tol = clean_image img hints2 tol) \<and>
   (clean_image img hints tol = clean_image img [] tol \<or>
    clean_image img hints tol = Inl OverflowError)"
proof
  show "hints_ok hints1 \<and> hints_ok hints2 \<longrightarrow>
      clean_image img hints1 tol = clean_image img hints2 tol"
    by (simp add: clean_image_def clean_state_def scan_border_hints_ok)
next
  from scan_border_hints[of "width img" "height img" hints tol
      "border_pixels (width img) (height img)" "\<lparr>pix = pixels img, visited = {}, to_clear = {}\<rparr>"]
  show "clean_image img hints tol = clean_image img [] tol \<or>
      clean_image img hints tol = Inl OverflowError"
    by (auto simp: clean_image_def clean_state_def)
qed

text \<open>A hint far from every pixel against the empty hint list, on a black and a red pixel.\<close>

theorem clean_image_hints_only_overflow_witness:
  "hints_ok [(0, 0, 200)] \<and> hints_ok [] \<and>
   clean_image step_2x1 [(0, 0, 200)] 10 = clean_image step_2x1 [] 10"
  using clean_image_hints_only_overflow[of "[(0, 0, 200)]" "[]" step_2x1 10 "[]"]
    hints_ok_black_blue hints_ok_Nil
  by blast

text \<open>
  C10 as stated fails: with the hint \<open>(10 ^ 155, 0, 0)\<close> the distance of the white pixel to
  the hint overflows in \<open>math.sqrt\<close>, before \<open>is_bg\<close> is overwritten, and the call ends
  in the \<open>except\<close> clause; with no hint the pixel is cleared.
\<close>

theorem hint_independence_counterexample:
  "clean_image white_1x1 [(10 ^ 155, 0, 0)] 10 = Inl OverflowError \<and>
   clean_image white_1x1 [] 10 =
     Inr (white_1x1\<lparr>pixels := (pixels white_1x1)((0, 0) := (0, 0, 0, 0))\<rparr>, 1)"
  by (simp add: run_simps white_1x1_def border_1x1 math_sqrt_overflow)



text \<open>
  C5, as amended. Clearing a pixel overwrites all four channels with 0, not the alpha channel
  alone: a call on an image of positive size returns (unless the hint loop raises), and then
  the pixel data are \<open>(0, 0, 0, 0)\<close> at every coordinate of \<open>to_clear\<close> and the loaded
  pixel everywhere else.
\<close>

theorem clear_writes_zero_pixel:
  assumes "wf_image img"
  shows "(\<exists>s. clean_state img bg_hints tol = Inr s \<and>
            clean_image img bg_hints tol = Inr (img\<lparr>pixels := pix s\<rparr>, card (to_clear s)) \<and>
            pix s = (\<lambda>p. if p \<in> to_clear s then (0, 0, 0, 0) else pixels img p)) \<or>
         (\<not> hints_ok bg_hints \<and> clean_state img bg_hints tol = Inl OverflowError)"
proof -
  from clean_state_cases[OF assms, of bg_hints tol] show ?thesis
  proof
    assume "\<exists>s. clean_state img bg_hints tol = Inr s"
    then obtain s where s: "clean_state img bg_hints tol = Inr s" ..
    from clean_state_inv[OF s]
    have "pix s = (\<lambda>p. if p \<in> to_clear s then (0, 0, 0, 0) else pixels img p)"
      by (simp add: fill_inv_def)
    with s clean_image_eq[OF s] show ?thesis by blast
  qed simp
qed

theorem clear_writes_zero_pixel_witness:
  "wf_image white_1x1 \<and> hints_ok [] \<and>
   (\<exists>s. clean_state white_1x1 [] 10 = Inr s \<and>
      clean_image white_1x1 [] 10 = Inr (white_1x1\<lparr>pixels := pix s\<rparr>, card (to_clear s)) \<and>
      pix s = (\<lambda>p. if p \<in> to_clear s then (0, 0, 0, 0) else pixels white_1x1 p))"
proof -
  have wf: "wf_image white_1x1" by (simp add: wf_image_def white_1x1_def)
  from clear_writes_zero_pixel[OF wf, of "[]" 10] wf hints_ok_Nil show ?thesis by blast
qed

text \<open>
  C5 as stated fails: cleaning a single opaque white pixel leaves red, green and blue at 0,
  not at 255.
\<close>

theorem clear_keeps_rgb_counterexample:
  "clean_image white_1x1 [] 10 =
     Inr (white_1x1\<lparr>pixels := (pixels white_1x1)((0, 0) := (0, 0, 0, 0))\<rparr>, 1) \<and>
   rgb_of (pixels white_1x1 (0, 0)) = (255, 255, 255) \<and>
   rgb_of (((pixels white_1x1)((0, 0) := (0, 0, 0, 0))) (0, 0)) = (0, 0, 0)"
  by (simp add: run_simps white_1x1_def border_1x1)

text \<open>
  C3, as amended. The printed count is the size of \<open>to_clear\<close>: the pixels that passed the
  tolerance test, whatever their alpha was. The pixels whose alpha went from non-zero to zero
  are the members of \<open>to_clear\<close> that were not transparent before, so the count is the
  number of such transitions plus the number of already transparent pixels the fill reached.
  A border pixel that is transparent in the loaded image is never flooded from: in every
  state of the call, its pass of the border loop leaves the state as it is.
\<close>

theorem cleared_count_counts_to_clear:
  assumes "wf_image img"
  shows "((\<exists>s. clean_state img bg_hints tol = Inr s \<and>
             clean_image img bg_hints tol = Inr (img\<lparr>pixels := pix s\<rparr>, card (to_clear s)) \<and>
             alpha_transitions img (img\<lparr>pixels := pix s\<rparr>) =
               {p \<in> to_clear s. alpha (pixels img p) \<noteq> 0} \<and>
             card (to_clear s) =
               card (alpha_transitions img (img\<lparr>pixels := pix s\<rparr>)) +
               card {p \<in> to_clear s. alpha (pixels img p) = 0}) \<or>
          (\<not> hints_ok bg_hints \<and> clean_state img bg_hints tol = Inl OverflowError)) \<and>
         (\<forall>b s0. in_bounds (width img) (height img) b \<longrightarrow> fill_inv (pixels img) s0 \<longrightarrow>
            alpha (pixels img b) = 0 \<longrightarrow>
            seed_step (width img) (height img) bg_hints tol b s0 = Inr s0)"
proof
  from clean_state_cases[OF assms, of bg_hints tol]
  show "(\<exists>s. clean_state img bg_hints tol = Inr s \<and>
             clean_image img bg_hints tol = Inr (img\<lparr>pixels := pix s\<rparr>, card (to_clear s)) \<and>
             alpha_transitions img (img\<lparr>pixels := pix s\<rparr>) =
               {p \<in> to_clear s. alpha (pixels img p) \<noteq> 0} \<and>
             card (to_clear s) =
               card (alpha_transitions img (img\<lparr>pixels := pix s\<rparr>)) +
               card {p \<in> to_clear s. alpha (pixels img p) = 0}) \<or>
          (\<not> hints_ok bg_hints \<and> clean_state img bg_hints tol = Inl OverflowError)"
  proof
    assume "\<exists>s. clean_state img bg_hints tol = Inr s"
    then obtain s where s: "clean_state img bg_hints tol = Inr s" ..
    note inv = clean_state_inv[OF s]
    note sub = clean_state_to_clear[OF s]
    have fin: "finite (to_clear s)" using sub finite_grid by (rule finite_subset)
    note tr = transitions_eq[OF inv sub]
    have "to_clear s = {p \<in> to_clear s. alpha (pixels img p) \<noteq> 0} \<union>
        {p \<in> to_clear s. alpha (pixels img p) = 0}" by auto
    moreover have "{p \<in> to_clear s. alpha (pixels img p) \<noteq> 0} \<inter>
        {p \<in> to_clear s. alpha (pixels img p) = 0} = {}" by auto
    ultimately have "card (to_clear s) = card {p \<in> to_clear s. alpha (pixels img p) \<noteq> 0} +
        card {p \<in> to_clear s. alpha (pixels img p) = 0}"
      using fin by (metis (no_types, lifting) card_Un_disjoint finite_Un)
    with s tr clean_image_eq[OF s] show ?thesis by auto
  qed simp
next
  show "\<forall>b s0. in_bounds (width img) (height img) b \<longrightarrow> fill_inv (pixels img) s0 \<longrightarrow>
      alpha (pixels img b) = 0 \<longrightarrow>
      seed_step (width img) (height img) bg_hints tol b s0 = Inr s0"
    by (simp add: seed_skips_transparent)
qed

theorem cleared_count_counts_to_clear_witness:
  "wf_image black_2x1_half \<and> hints_ok [] \<and>
   (\<exists>s. clean_state black_2x1_half [] 10 = Inr s \<and>
      clean_image black_2x1_half [] 10 = Inr (black_2x1_half\<lparr>pixels := pix s\<rparr>, card (to_clear s)) \<and>
      alpha_transitions black_2x1_half (black_2x1_half\<lparr>pixels := pix s\<rparr>) =
        {p \<in> to_clear s. alpha (pixels black_2x1_half p) \<noteq> 0} \<and>
      card (to_clear s) =
        card (alpha_transitions black_2x1_half (black_2x1_half\<lparr>pixels := pix s\<rparr>)) +
        card {p \<in> to_clear s. alpha (pixels black_2x1_half p) = 0}) \<and>
   seed_step 2 1 [] 10 (1, 0) \<lparr>pix = pixels black_2x1_half, visited = {}, to_clear = {}\<rparr> =
     Inr \<lparr>pix = pixels black_2x1_half, visited = {}, to_clear = {}\<rparr>"
proof -
  have wf: "wf_image black_2x1_half" by (simp add: wf_image_def black_2x1_half_def)
  have ib: "in_bounds (width black_2x1_half) (height black_2x1_half) (1, 0)"
    by (simp add: in_bounds_def black_2x1_half_def)
  have al: "alpha (pixels black_2x1_half (1, 0)) = 0" by (simp add: black_2x1_half_def)
  have wh: "width black_2x1_half = 2" "height black_2x1_half = 1" by (simp_all add: black_2x1_half_def)
  note main = cleared_count_counts_to_clear[OF wf, of "[]" 10]
  from main hints_ok_Nil obtain s where
    s: "clean_state black_2x1_half [] 10 = Inr s \<and>
      clean_image black_2x1_half [] 10 = Inr (black_2x1_half\<lparr>pixels := pix s\<rparr>, card (to_clear s)) \<and>
      alpha_transitions black_2x1_half (black_2x1_half\<lparr>pixels := pix s\<rparr>) =
        {p \<in> to_clear s. alpha (pixels black_2x1_half p) \<noteq> 0} \<and>
      card (to_clear s) =
        card (alpha_transitions black_2x1_half (black_2x1_half\<lparr>pixels := pix s\<rparr>)) +
        card {p \<in> to_clear s. alpha (pixels black_2x1_half p) = 0}"
    by blast
  from main have skip: "\<forall>b s0. in_bounds (width black_2x1_half) (height black_2x1_half) b \<longrightarrow>
        fill_inv (pixels black_2x1_half) s0 \<longrightarrow> alpha (pixels black_2x1_half b) = 0 \<longrightarrow>
        seed_step (width black_2x1_half) (height black_2x1_half) [] 10 b s0 = Inr s0"
    by blast
  from skip ib al fill_inv_init[of "pixels black_2x1_half"]
  have "seed_step (width black_2x1_half) (height black_2x1_half) [] 10 (1, 0)
      \<lparr>pix = pixels black_2x1_half, visited = {}, to_clear = {}\<rparr> =
     Inr \<lparr>pix = pixels black_2x1_half, visited = {}, to_clear = {}\<rparr>"
    by blast
  with wf s wh hints_ok_Nil show ?thesis by auto
qed

text \<open>
  C3 as stated fails: in a row of an opaque black and a transparent black pixel the fill
  reaches the transparent one and counts it, so 2 is printed while one alpha changed.
\<close>

theorem cleared_count_counterexample:
  "clean_image black_2x1_half [] 10 =
     Inr (black_2x1_half\<lparr>pixels :=
            (pixels black_2x1_half)((0, 0) := (0, 0, 0, 0), (1, 0) := (0, 0, 0, 0))\<rparr>, 2) \<and>
   card (alpha_transitions black_2x1_half
     (black_2x1_half\<lparr>pixels :=
        (pixels black_2x1_half)((0, 0) := (0, 0, 0, 0), (1, 0) := (0, 0, 0, 0))\<rparr>)) = 1"
proof -
  have "alpha_transitions black_2x1_half
     (black_2x1_half\<lparr>pixels :=
        (pixels black_2x1_half)((0, 0) := (0, 0, 0, 0), (1, 0) := (0, 0, 0, 0))\<rparr>) = {(0, 0)}"
    by (auto simp: alpha_transitions_def black_2x1_half_def grid_def split: if_splits)
  moreover have "clean_image black_2x1_half [] 10 =
     Inr (black_2x1_half\<lparr>pixels :=
            (pixels black_2x1_half)((0, 0) := (0, 0, 0, 0), (1, 0) := (0, 0, 0, 0))\<rparr>, 2)"
    by (simp add: run_simps black_2x1_half_def border_2x1)
  ultimately show ?thesis by simp
qed




text \<open>
  C1, as amended. On an image of positive size \<open>clean_image\<close> returns (unless the hint loop
  raises) and clears exactly the union, over the border seeds in the order of the scan, of
  the region of the seed outside the coordinates visited by the earlier seeds' fills
  (\<open>seed_regions\<close>). Every cleared pixel is therefore 4-connected-reachable from a border
  pixel with alpha through pixels within the tolerance of that pixel's loaded colour; every
  pixel that is not cleared has its loaded value, all four channels, and every cleared pixel
  is \<open>(0, 0, 0, 0)\<close>. The tolerance test is the one of the code: the float distance against
  the tolerance.
\<close>

theorem clean_clears_seed_regions:
  assumes "wf_image img"
  shows "(\<exists>s. clean_state img bg_hints tol = Inr s \<and>
            clean_image img bg_hints tol = Inr (img\<lparr>pixels := pix s\<rparr>, card (to_clear s)) \<and>
            to_clear s =
              snd (seed_regions (width img) (height img) (pixels img) tol
                     (border_pixels (width img) (height img)) ({}, {})) \<and>
            to_clear s \<subseteq>
              (\<Union>b\<in>{b \<in> set (border_pixels (width img) (height img)). alpha (pixels img b) \<noteq> 0}.
                 region (width img) (height img) (pixels img) tol {} b) \<and>
            pix s = (\<lambda>p. if p \<in> to_clear s then (0, 0, 0, 0) else pixels img p)) \<or>
         (\<not> hints_ok bg_hints \<and> clean_state img bg_hints tol = Inl OverflowError)"
proof -
  let ?w = "width img" and ?h = "height img"
  from clean_state_cases[OF assms, of bg_hints tol] show ?thesis
  proof
    assume "\<exists>s. clean_state img bg_hints tol = Inr s"
    then obtain s where s: "clean_state img bg_hints tol = Inr s" ..
    from scan_border_exact[OF fill_inv_init s[unfolded clean_state_def]]
    have ex: "(visited s, to_clear s) =
        seed_regions ?w ?h (pixels img) tol (border_pixels ?w ?h) ({}, {})" by simp
    then have 1: "to_clear s =
        snd (seed_regions ?w ?h (pixels img) tol (border_pixels ?w ?h) ({}, {}))"
      by (metis snd_conv)
    with seed_regions_sound[of ?w ?h "pixels img" tol "border_pixels ?w ?h" "{}" "{}"]
    have 2: "to_clear s \<subseteq>
        (\<Union>b\<in>{b \<in> set (border_pixels ?w ?h). alpha (pixels img b) \<noteq> 0}.
           region ?w ?h (pixels img) tol {} b)" by simp
    from clean_state_inv[OF s]
    have 3: "pix s = (\<lambda>p. if p \<in> to_clear s then (0, 0, 0, 0) else pixels img p)"
      by (simp add: fill_inv_def)
    from s 1 2 3 clean_image_eq[OF s] show ?thesis by blast
  qed simp
qed

theorem clean_clears_seed_regions_witness:
  "wf_image ramp_3x1 \<and> hints_ok [] \<and>
   (\<exists>s. clean_state ramp_3x1 [] 10 = Inr s \<and>
      clean_image ramp_3x1 [] 10 = Inr (ramp_3x1\<lparr>pixels := pix s\<rparr>, card (to_clear s)) \<and>
      to_clear s =
        snd (seed_regions (width ramp_3x1) (height ramp_3x1) (pixels ramp_3x1) 10
               (border_pixels (width ramp_3x1) (height ramp_3x1)) ({}, {})) \<and>
      to_clear s \<subseteq>
        (\<Union>b\<in>{b \<in> set (border_pixels (width ramp_3x1) (height ramp_3x1)).
                alpha (pixels ramp_3x1 b) \<noteq> 0}.
           region (width ramp_3x1) (height ramp_3x1) (pixels ramp_3x1) 10 {} b) \<and>
      pix s = (\<lambda>p. if p \<in> to_clear s then (0, 0, 0, 0) else pixels ramp_3x1 p))"
proof -
  have wf: "wf_image ramp_3x1" by (simp add: wf_image_def ramp_3x1_def)
  from clean_clears_seed_regions[OF wf, of "[]" 10] wf hints_ok_Nil show ?thesis by blast
qed

text \<open>
  C1 as stated fails: in the row black, red 100, red 110 with tolerance 10 the fill of the
  black seed visits and rejects the middle pixel; the fill of the seed at the right end, whose
  region contains the middle pixel (distance 10), finds it visited and leaves it as loaded.
\<close>

theorem clean_region_counterexample:
  "clean_image ramp_3x1 [] 10 =
     Inr (ramp_3x1\<lparr>pixels := (pixels ramp_3x1)((0, 0) := (0, 0, 0, 0), (2, 0) := (0, 0, 0, 0))\<rparr>, 2) \<and>
   ((pixels ramp_3x1)((0, 0) := (0, 0, 0, 0), (2, 0) := (0, 0, 0, 0))) (1, 0) = (100, 0, 0, 255) \<and>
   (2, 0) \<in> set (border_pixels 3 1) \<and>
   alpha (pixels ramp_3x1 (2, 0)) = 255 \<and>
   (1, 0) \<in> region 3 1 (pixels ramp_3x1) 10 {} (2, 0)"
proof -
  have run: "clean_image ramp_3x1 [] 10 =
     Inr (ramp_3x1\<lparr>pixels := (pixels ramp_3x1)((0, 0) := (0, 0, 0, 0), (2, 0) := (0, 0, 0, 0))\<rparr>, 2)"
    by (simp add: run_simps ramp_3x1_def border_3x1)
  have "(2, 0) \<in> region 3 1 (pixels ramp_3x1) 10 {} (2, 0)"
    by (rule region.seed) (simp_all add: in_bounds_def within_tol_self)
  then have "(1, 0) \<in> region 3 1 (pixels ramp_3x1) 10 {} (2, 0)"
    by (rule region.step)
      (simp_all add: neighbours_def in_bounds_def ramp_3x1_def within_tol_def math_sqrt_evals)
  with run show ?thesis by (simp add: ramp_3x1_def border_3x1)
qed

text \<open>
  C7. Cropping an output of \<open>circular_crop\<close> again (same size, hence the same box and the
  same mask) gives that output back.
\<close>

theorem circular_crop_idempotent:
  "circular_crop prim img = Inr out \<Longrightarrow> circular_crop prim out = Inr out"
  by (auto simp: circular_crop_eq split: sum.splits)

text \<open>A 4 by 4 white image: the box is \<open>(2, 2, 2, 2)\<close>.\<close>

theorem circular_crop_idempotent_witness:
  "circular_crop (checked_ellipse (\<lambda>box p. True)) white_4x4 =
     Inr \<lparr>width = 4, height = 4,
          pixels = (\<lambda>p. if in_bounds 4 4 p then (255, 255, 255, 255) else (0, 0, 0, 0))\<rparr> \<and>
   circular_crop (checked_ellipse (\<lambda>box p. True))
     \<lparr>width = 4, height = 4,
      pixels = (\<lambda>p. if in_bounds 4 4 p then (255, 255, 255, 255) else (0, 0, 0, 0))\<rparr> =
     Inr \<lparr>width = 4, height = 4,
          pixels = (\<lambda>p. if in_bounds 4 4 p then (255, 255, 255, 255) else (0, 0, 0, 0))\<rparr>"
proof -
  have run: "circular_crop (checked_ellipse (\<lambda>box p. True)) white_4x4 =
     Inr \<lparr>width = 4, height = 4,
          pixels = (\<lambda>p. if in_bounds 4 4 p then (255, 255, 255, 255) else (0, 0, 0, 0))\<rparr>"
    by (simp add: circular_crop_eq white_4x4_def crop_box_4x4 checked_ellipse_def fun_eq_iff)
  from circular_crop_idempotent[OF run] run show ?thesis by simp
qed

text \<open>
  C8. \<open>circular_crop\<close> hands the drawing primitive the square box of radius
  \<open>min w h / 2 - 2\<close> around the centre \<open>(w / 2, h / 2)\<close>, and returns the source pixel at
  the coordinates inside the image that the primitive covers for that box and
  \<open>(0, 0, 0, 0)\<close> elsewhere. The mask is 255 at exactly those coordinates: it is the mask
  of the blank image of the same size, whatever the pixels are.
\<close>

theorem circular_crop_geometry:
  "circular_crop prim img =
     (case prim (real_of_int (width img) / 2 - (real_of_int (min (width img) (height img)) / 2 - 2),
                 real_of_int (height img) / 2 - (real_of_int (min (width img) (height img)) / 2 - 2),
                 real_of_int (width img) / 2 + (real_of_int (min (width img) (height img)) / 2 - 2),
                 real_of_int (height img) / 2 + (real_of_int (min (width img) (height img)) / 2 - 2))
      of
        Inl e \<Rightarrow> Inl e
      | Inr covers \<Rightarrow>
          Inr \<lparr>width = width img, height = height img,
               pixels = (\<lambda>p. if in_bounds (width img) (height img) p \<and> covers p
                              then pixels img p else (0, 0, 0, 0))\<rparr>) \<and>
   circular_mask prim img =
     (case prim (real_of_int (width img) / 2 - (real_of_int (min (width img) (height img)) / 2 - 2),
                 real_of_int (height img) / 2 - (real_of_int (min (width img) (height img)) / 2 - 2),
                 real_of_int (width img) / 2 + (real_of_int (min (width img) (height img)) / 2 - 2),
                 real_of_int (height img) / 2 + (real_of_int (min (width img) (height img)) / 2 - 2))
      of
        Inl e \<Rightarrow> Inl e
      | Inr covers \<Rightarrow>
          Inr \<lparr>width = width img, height = height img,
               pixels = (\<lambda>p. if in_bounds (width img) (height img) p \<and> covers p
                              then 255 else 0)\<rparr>) \<and>
   circular_mask prim img =
     circular_mask prim (Image_new (width img) (height img) (0, 0, 0, 0))"
proof -
  have box: "crop_box (width img) (height img) =
     (real_of_int (width img) / 2 - (real_of_int (min (width img) (height img)) / 2 - 2),
      real_of_int (height img) / 2 - (real_of_int (min (width img) (height img)) / 2 - 2),
      real_of_int (width img) / 2 + (real_of_int (min (width img) (height img)) / 2 - 2),
      real_of_int (height img) / 2 + (real_of_int (min (width img) (height img)) / 2 - 2))"
    by (simp add: crop_box_def crop_radius_def crop_center_def Let_def)
  have same: "circular_mask prim img =
     circular_mask prim (Image_new (width img) (height img) (0, 0, 0, 0))"
    by (simp add: circular_mask_eq Image_new_def fun_eq_iff split: sum.split)
  from circular_crop_eq[of prim img] circular_mask_eq[of prim img] same show ?thesis
    unfolding box by simp
qed

text \<open>
  C9, as amended. On an image of positive width and height \<open>clean_image\<close> returns, for every
  tolerance and every hint list for which the hint loop raises nothing (the empty list and
  every list of 8-bit colours); its only failure is the OverflowError of a hint whose distance
  to a pixel colour is too large for a float. The fill loop terminates and reads only
  coordinates inside the image. \<open>circular_crop\<close> raises nothing of its own (the mask has the
  size of the image it is pasted with): it fails exactly with the exception of the drawing
  primitive. The box it hands over is ordered exactly when the smaller side of the image is at
  least 4, and then a primitive that accepts every ordered box returns.
\<close>

theorem cores_total_in_range:
  assumes "wf_image img"
  shows "(hints_ok bg_hints \<longrightarrow> (\<exists>out n. clean_image img bg_hints tol = Inr (out, n))) \<and>
         (\<forall>e. clean_image img bg_hints tol = Inl e \<longrightarrow> e = OverflowError \<and> \<not> hints_ok bg_hints) \<and>
         (\<forall>e. circular_crop prim img = Inl e \<longleftrightarrow>
              prim (crop_box (width img) (height img)) = Inl e) \<and>
         (ordered_box (crop_box (width img) (height img)) \<longleftrightarrow> 4 \<le> min (width img) (height img)) \<and>
         (4 \<le> min (width img) (height img) \<and> accepts_ordered prim \<longrightarrow>
            (\<exists>out. circular_crop prim img = Inr out))"
proof (intro conjI)
  note cases = clean_state_cases[OF assms, of bg_hints tol]
  show "hints_ok bg_hints \<longrightarrow> (\<exists>out n. clean_image img bg_hints tol = Inr (out, n))"
    using cases clean_image_eq[of img bg_hints tol] by blast
  show "\<forall>e. clean_image img bg_hints tol = Inl e \<longrightarrow> e = OverflowError \<and> \<not> hints_ok bg_hints"
    using cases by (auto simp: clean_image_Inl)
next
  show "\<forall>e. circular_crop prim img = Inl e \<longleftrightarrow> prim (crop_box (width img) (height img)) = Inl e"
    by (auto simp: circular_crop_eq split: sum.splits)
next
  show "ordered_box (crop_box (width img) (height img)) \<longleftrightarrow> 4 \<le> min (width img) (height img)"
    by (rule ordered_crop_box)
next
  show "4 \<le> min (width img) (height img) \<and> accepts_ordered prim \<longrightarrow>
      (\<exists>out. circular_crop prim img = Inr out)"
  proof
    assume a: "4 \<le> min (width img) (height img) \<and> accepts_ordered prim"
    then have "ordered_box (crop_box (width img) (height img))" by (simp add: ordered_crop_box)
    with a obtain covers where "prim (crop_box (width img) (height img)) = Inr covers"
      unfolding accepts_ordered_def by blast
    then show "\<exists>out. circular_crop prim img = Inr out" by (simp add: circular_crop_eq)
  qed
qed

text \<open>
  A single white pixel with tolerance 0 and no hints for the fill, and with an oversized
  hint; for the crop, the same pixel (rejected box) and a 4 by 4 image (accepted box), with
  the checked primitive.
\<close>

theorem cores_total_in_range_witness:
  "wf_image white_1x1 \<and> hints_ok [] \<and>
   (\<exists>out n. clean_image white_1x1 [] 0 = Inr (out, n)) \<and>
   clean_image white_1x1 [(10 ^ 155, 0, 0)] 0 = Inl OverflowError \<and>
   \<not> hints_ok [(10 ^ 155, 0, 0)] \<and>
   circular_crop (checked_ellipse (\<lambda>box p. True)) white_1x1 = Inl ValueError \<and>
   checked_ellipse (\<lambda>box p. True) (crop_box (width white_1x1) (height white_1x1)) = Inl ValueError \<and>
   wf_image white_4x4 \<and>
   4 \<le> min (width white_4x4) (height white_4x4) \<and>
   accepts_ordered (checked_ellipse (\<lambda>box p. True)) \<and>
   (\<exists>out. circular_crop (checked_ellipse (\<lambda>box p. True)) white_4x4 = Inr out)"
proof -
  let ?P = "checked_ellipse (\<lambda>box p. True)"
  have wf1: "wf_image white_1x1" by (simp add: wf_image_def white_1x1_def)
  have wf4: "wf_image white_4x4" by (simp add: wf_image_def white_4x4_def)
  have big: "4 \<le> min (width white_4x4) (height white_4x4)" by (simp add: white_4x4_def)
  have fail: "circular_crop ?P white_1x1 = Inl ValueError"
    by (simp add: circular_crop_eq white_1x1_def crop_box_1x1 checked_ellipse_def)
  have over: "clean_image white_1x1 [(10 ^ 155, 0, 0)] 0 = Inl OverflowError"
    by (simp add: run_simps white_1x1_def border_1x1 math_sqrt_overflow)
  note acc = accepts_ordered_checked[of "\<lambda>box p. True"]
  from cores_total_in_range[OF wf1, of "[]" 0 ?P] fail hints_ok_Nil
  have 1: "(\<exists>out n. clean_image white_1x1 [] 0 = Inr (out, n))"
    and 2: "?P (crop_box (width white_1x1) (height white_1x1)) = Inl ValueError"
    by blast+
  from cores_total_in_range[OF wf1, of "[(10 ^ 155, 0, 0)]" 0 ?P] over
  have 3: "\<not> hints_ok [(10 ^ 155, 0, 0)]" by blast
  from cores_total_in_range[OF wf4, of "[]" 0 ?P] big acc
  have 4: "\<exists>out. circular_crop ?P white_4x4 = Inr out" by blast
  from wf1 hints_ok_Nil 1 over 3 fail 2 wf4 big acc 4 show ?thesis by blast
qed

text \<open>
  C9 as stated fails twice. For the fill: with the hint \<open>(10 ^ 155, 0, 0)\<close> the distance
  overflows in \<open>math.sqrt\<close> and the call ends in the \<open>except\<close> clause. For the crop of a
  1 by 1 image: the radius is \<open>-1.5\<close>, the box is \<open>(2, 2, -1, -1)\<close>, and a primitive that
  checks the order of the box raises ValueError.
\<close>

theorem cores_total_counterexample:
  "wf_image white_1x1 \<and>
   clean_image white_1x1 [(10 ^ 155, 0, 0)] 10 = Inl OverflowError \<and>
   crop_box (width white_1x1) (height white_1x1) = (2, 2, -1, -1) \<and>
   circular_crop (checked_ellipse (\<lambda>box p. True)) white_1x1 = Inl ValueError"
proof -
  have "clean_image white_1x1 [(10 ^ 155, 0, 0)] 10 = Inl OverflowError"
    by (simp add: run_simps white_1x1_def border_1x1 math_sqrt_overflow)
  moreover have "circular_crop (checked_ellipse (\<lambda>box p. True)) white_1x1 = Inl ValueError"
    by (simp add: circular_crop_eq white_1x1_def crop_box_1x1 checked_ellipse_def)
  ultimately show ?thesis by (simp add: wf_image_def white_1x1_def crop_box_1x1)
qed

end
